theory Spec2Isabelle
  imports Main "HOL-Library.Word"
begin

section \<open>Python values the request functions work on\<close>

text \<open>
  The module \<^verbatim>\<open>chattool/request.py\<close> holds four functions: \<^verbatim>\<open>is_valid_url\<close>,
  \<^verbatim>\<open>normalize_url\<close>, \<^verbatim>\<open>chat_completion\<close> and \<^verbatim>\<open>valid_models\<close>. The first two are string
  functions built on \<^verbatim>\<open>urllib.parse.urlparse\<close> and \<^verbatim>\<open>urlunparse\<close>; the last two send
  one HTTP request each and map the response to a result or to a raised exception.

  A Python \<^verbatim>\<open>str\<close> is a \<^typ>\<open>string\<close>. Every test the code makes on a character is a
  test against an ASCII character, so a character outside ASCII only has to be different
  from all of those. Exceptions are values of \<open>py_error\<close>, and a function that can raise
  returns \<open>py_error + 'a\<close> with \<open>Inl\<close> for the exception.
\<close>

datatype py_error =
    ValueError
  | TypeError
  | AttributeError
  | JSONDecodeError
  | TransportError string
  | Exception string

text \<open>
  \<^verbatim>\<open>s.replace(old, new)\<close>: the occurrences of \<open>old\<close> are found from the left and do not
  overlap; after a replacement the scan goes on behind the replaced text. With an empty
  \<open>old\<close>, Python puts \<open>new\<close> before every character and at the end.
\<close>

fun replace_from :: "string \<Rightarrow> string \<Rightarrow> string \<Rightarrow> string" where
  "replace_from old new [] = []"
| "replace_from old new (c # cs) =
     (if old \<noteq> [] \<and> take (length old) (c # cs) = old
      then new @ replace_from old new (drop (length old) (c # cs))
      else c # replace_from old new cs)"

definition str_replace :: "string \<Rightarrow> string \<Rightarrow> string \<Rightarrow> string" where
  "str_replace old new s =
     (if old = [] then new @ concat (map (\<lambda>c. c # new) s) else replace_from old new s)"

text \<open>\<^verbatim>\<open>sub in s\<close> for two strings: \<open>sub\<close> occurs in \<open>s\<close> as a contiguous piece.\<close>

fun str_contains :: "string \<Rightarrow> string \<Rightarrow> bool" where
  "str_contains sub [] = (sub = [])"
| "str_contains sub (c # cs) =
     (take (length sub) (c # cs) = sub \<or> str_contains sub cs)"

text \<open>The characters the code names.\<close>

definition backslash :: char where
  "backslash = CHR 0x5C"

definition slash :: char where
  "slash = CHR ''/''"

definition colon :: char where
  "colon = CHR '':''"

definition semicolon :: char where
  "semicolon = CHR '';''"

definition qmark :: char where
  "qmark = CHR ''?''"

definition hash :: char where
  "hash = CHR ''#''"

section \<open>urllib.parse: urlsplit, urlparse, urlunsplit, urlunparse\<close>

text \<open>
  The two library functions \<^verbatim>\<open>normalize_url\<close> is made of, after CPython's
  \<^verbatim>\<open>urllib/parse.py\<close>, for \<^verbatim>\<open>str\<close> arguments and the default arguments \<^verbatim>\<open>scheme=''\<close>,
  \<^verbatim>\<open>allow_fragments=True\<close> the module calls them with.

  The module runs on the interpreter it is installed for, and \<^verbatim>\<open>urllib/parse.py\<close> is
  not the same in all of them. The model follows two releases, CPython 3.11.10 and
  CPython 3.12.3, which differ in three places: the list \<^verbatim>\<open>uses_netloc\<close>, the check of a
  network location in square brackets in \<^verbatim>\<open>urlsplit\<close>, and the condition under which
  \<^verbatim>\<open>urlunsplit\<close> writes the two slashes. The release is a field of the record \<open>pylib\<close>.

  Two checks of \<^verbatim>\<open>urlsplit\<close> lead out of \<^verbatim>\<open>urllib\<close>: a host in square brackets goes to
  \<^verbatim>\<open>ipaddress.ip_address\<close>, and a network location outside ASCII goes to
  \<^verbatim>\<open>unicodedata.normalize('NFKC', _)\<close>. Both are fields of \<open>pylib\<close> too: every theorem
  with a free \<open>L\<close> below holds for both releases and whatever the two functions answer.
\<close>

datatype cpython = Py_3_11 | Py_3_12

datatype ip_version = IPv4 | IPv6

record pylib =
  release :: cpython
  nfkc :: "string \<Rightarrow> string"
  ip_address :: "string \<Rightarrow> ip_version option"

text \<open>\<^verbatim>\<open>uses_netloc\<close>: release 3.12 has \<^verbatim>\<open>'itms-services'\<close> at the end of the list.\<close>

definition uses_netloc :: "pylib \<Rightarrow> string list" where
  "uses_netloc L = ['''', ''ftp'', ''http'', ''gopher'', ''nntp'', ''telnet'',
     ''imap'', ''wais'', ''file'', ''mms'', ''https'', ''shttp'',
     ''snews'', ''prospero'', ''rtsp'', ''rtsps'', ''rtspu'', ''rsync'',
     ''svn'', ''svn+ssh'', ''sftp'', ''nfs'', ''git'', ''git+ssh'',
     ''ws'', ''wss''] @
     (case release L of Py_3_11 \<Rightarrow> [] | Py_3_12 \<Rightarrow> [''itms-services''])"

definition uses_params :: "string list" where
  "uses_params = ['''', ''ftp'', ''hdl'', ''prospero'', ''http'', ''imap'',
     ''https'', ''shttp'', ''rtsp'', ''rtsps'', ''rtspu'', ''sip'',
     ''sips'', ''mms'', ''sftp'', ''tel'']"

definition ascii_lowercase :: string where
  "ascii_lowercase = ''abcdefghijklmnopqrstuvwxyz''"

definition ascii_uppercase :: string where
  "ascii_uppercase = ''ABCDEFGHIJKLMNOPQRSTUVWXYZ''"

definition scheme_chars :: string where
  "scheme_chars = ascii_lowercase @ ascii_uppercase @ ''0123456789'' @ ''+-.''"

text \<open>\<^verbatim>\<open>c.isascii() and c.isalpha()\<close>: one of the 52 ASCII letters.\<close>

definition ascii_alpha :: "char \<Rightarrow> bool" where
  "ascii_alpha c = (c \<in> set (ascii_lowercase @ ascii_uppercase))"

text \<open>
  \<^verbatim>\<open>str.lower\<close> on a scheme: \<^verbatim>\<open>urlsplit\<close> lowers a string only after it has found all
  its characters in \<open>scheme_chars\<close>, where lowering maps each capital to its small letter.
\<close>

definition lower_char :: "char \<Rightarrow> char" where
  "lower_char c =
     (case map_of (zip ascii_uppercase ascii_lowercase) c of Some d \<Rightarrow> d | None \<Rightarrow> c)"

definition str_lower :: "string \<Rightarrow> string" where
  "str_lower s = map lower_char s"

text \<open>\<^verbatim>\<open>s.isascii()\<close>.\<close>

definition isascii :: "string \<Rightarrow> bool" where
  "isascii s = list_all (\<lambda>c. (of_char c :: nat) < 128) s"

text \<open>
  \<^verbatim>\<open>url.lstrip(_WHATWG_C0_CONTROL_OR_SPACE)\<close>: the characters U+0000 to U+0020 are
  dropped from the front.
\<close>

definition lstrip_c0 :: "string \<Rightarrow> string" where
  "lstrip_c0 url = dropWhile (\<lambda>c. (of_char c :: nat) \<le> 32) url"

text \<open>
  \<^verbatim>\<open>for b in _UNSAFE_URL_BYTES_TO_REMOVE: url = url.replace(b, "")\<close> with tab, carriage
  return and line feed.
\<close>

definition unsafe_url_bytes :: string where
  "unsafe_url_bytes = [CHR 0x09, CHR 0x0D, CHR 0x0A]"

definition remove_unsafe :: "string \<Rightarrow> string" where
  "remove_unsafe url = foldl (\<lambda>u b. str_replace [b] [] u) url unsafe_url_bytes"

text \<open>
  The scheme of \<^verbatim>\<open>urlsplit\<close>: with \<open>i\<close> the place of the first colon, \<^verbatim>\<open>url[:i]\<close> is the
  scheme when \<open>i > 0\<close>, \<^verbatim>\<open>url[0]\<close> is an ASCII letter and all of \<^verbatim>\<open>url[:i]\<close> are scheme
  characters; then the scheme is lowered and the URL goes on behind the colon. The result
  is the pair of scheme (empty when none is found) and remaining URL.
\<close>

definition split_scheme :: "string \<Rightarrow> string \<times> string" where
  "split_scheme url =
     (if colon \<in> set url
      then (let pre = takeWhile (\<lambda>c. c \<noteq> colon) url in
            if pre \<noteq> [] \<and> ascii_alpha (hd url) \<and> list_all (\<lambda>c. c \<in> set scheme_chars) pre
            then (str_lower pre, tl (dropWhile (\<lambda>c. c \<noteq> colon) url))
            else ([], url))
      else ([], url))"

text \<open>
  \<^verbatim>\<open>_splitnetloc(url, 2)\<close>: behind the two slashes, the network location runs up to the
  first of \<^verbatim>\<open>/\<close>, \<^verbatim>\<open>?\<close> and \<^verbatim>\<open>#\<close>, or to the end; the rest starts at that delimiter.
\<close>

definition netloc_delims :: string where
  "netloc_delims = ''/?#''"

definition splitnetloc :: "string \<Rightarrow> string \<times> string" where
  "splitnetloc url =
     (takeWhile (\<lambda>c. c \<notin> set netloc_delims) (drop 2 url),
      dropWhile (\<lambda>c. c \<notin> set netloc_delims) (drop 2 url))"

text \<open>
  \<^verbatim>\<open>_check_bracketed_host\<close>: a host that starts with \<^verbatim>\<open>v\<close> has to match
  \<^verbatim>\<open>\Av[a-fA-F0-9]+\..+\Z\<close> (hexadecimal digits, a dot, at least one more character);
  any other host has to be an IP address, and not one of version 4.
\<close>

definition hexdigits :: string where
  "hexdigits = ''abcdefABCDEF0123456789''"

definition ipvfuture :: "string \<Rightarrow> bool" where
  "ipvfuture hostname =
     (let digits = takeWhile (\<lambda>c. c \<in> set hexdigits) (tl hostname);
          rest = dropWhile (\<lambda>c. c \<in> set hexdigits) (tl hostname)
      in digits \<noteq> [] \<and> take 1 rest = ''.'' \<and> tl rest \<noteq> [])"

definition check_bracketed_host :: "pylib \<Rightarrow> string \<Rightarrow> py_error + unit" where
  "check_bracketed_host L hostname =
     (if take 1 hostname = ''v''
      then (if ipvfuture hostname then Inr () else Inl ValueError)
      else (case ip_address L hostname of
              None \<Rightarrow> Inl ValueError
            | Some IPv4 \<Rightarrow> Inl ValueError
            | Some IPv6 \<Rightarrow> Inr ()))"

text \<open>
  \<^verbatim>\<open>_check_bracketed_netloc\<close> of release 3.12. The host and port are what stands behind
  the last \<^verbatim>\<open>@\<close> (\<^verbatim>\<open>netloc.rpartition('@')[2]\<close>). With a \<^verbatim>\<open>[\<close> there, nothing may stand
  before it, and behind the first \<^verbatim>\<open>]\<close> that follows only a port that starts with a
  colon; the host is the text between the two. Without a \<^verbatim>\<open>[\<close> there, the host is the
  text before the first colon. The host then goes to \<^verbatim>\<open>_check_bracketed_host\<close>.
\<close>

definition check_bracketed_netloc :: "pylib \<Rightarrow> string \<Rightarrow> py_error + unit" where
  "check_bracketed_netloc L netloc =
     (let hostname_and_port = rev (takeWhile (\<lambda>c. c \<noteq> CHR ''@'') (rev netloc)) in
      if CHR ''['' \<in> set hostname_and_port
      then (let before_bracket = takeWhile (\<lambda>c. c \<noteq> CHR ''['') hostname_and_port;
                bracketed = tl (dropWhile (\<lambda>c. c \<noteq> CHR ''['') hostname_and_port);
                hostname = takeWhile (\<lambda>c. c \<noteq> CHR '']'') bracketed;
                port = tl (dropWhile (\<lambda>c. c \<noteq> CHR '']'') bracketed)
            in if before_bracket \<noteq> [] then Inl ValueError
               else if port \<noteq> [] \<and> take 1 port \<noteq> '':'' then Inl ValueError
               else check_bracketed_host L hostname)
      else check_bracketed_host L (takeWhile (\<lambda>c. c \<noteq> colon) hostname_and_port))"

text \<open>
  The bracket checks of \<^verbatim>\<open>urlsplit\<close> on a network location: one bracket without the other
  is an \<^verbatim>\<open>Invalid IPv6 URL\<close>. With both, release 3.11 checks the host that stands between
  the first \<^verbatim>\<open>[\<close> and the first \<^verbatim>\<open>]\<close> behind it
  (\<^verbatim>\<open>_check_bracketed_host(netloc.partition('[')[2].partition(']')[0])\<close>), and release
  3.12 calls \<^verbatim>\<open>_check_bracketed_netloc(netloc)\<close>.
\<close>

definition check_brackets :: "pylib \<Rightarrow> string \<Rightarrow> py_error + unit" where
  "check_brackets L netloc =
     (let lb = CHR ''['' \<in> set netloc; rb = CHR '']'' \<in> set netloc in
      if (lb \<and> \<not> rb) \<or> (rb \<and> \<not> lb) then Inl ValueError
      else if lb \<and> rb
      then (case release L of
              Py_3_11 \<Rightarrow>
                check_bracketed_host L
                  (takeWhile (\<lambda>c. c \<noteq> CHR '']'') (tl (dropWhile (\<lambda>c. c \<noteq> CHR ''['') netloc)))
            | Py_3_12 \<Rightarrow> check_bracketed_netloc L netloc)
      else Inr ())"

text \<open>
  \<^verbatim>\<open>_checknetloc\<close>: nothing to check on an empty or ASCII network location. Otherwise
  \<^verbatim>\<open>@ : # ?\<close> are taken out, the rest is normalised, and a normal form that differs and
  holds one of \<^verbatim>\<open>/ ? # @ :\<close> is refused.
\<close>

definition checknetloc :: "pylib \<Rightarrow> string \<Rightarrow> py_error + unit" where
  "checknetloc L netloc =
     (if netloc = [] \<or> isascii netloc then Inr ()
      else (let n = filter (\<lambda>c. c \<notin> set ''@:#?'') netloc;
                netloc2 = nfkc L n
            in if n = netloc2 then Inr ()
               else if list_ex (\<lambda>c. c \<in> set netloc2) ''/?#@:'' then Inl ValueError
               else Inr ()))"

text \<open>
  \<^verbatim>\<open>url.split(c, 1)\<close> for a URL that holds \<open>c\<close>: the text before the first \<open>c\<close> and the
  text behind it.
\<close>

definition split_once :: "char \<Rightarrow> string \<Rightarrow> string \<times> string" where
  "split_once c url = (takeWhile (\<lambda>x. x \<noteq> c) url, tl (dropWhile (\<lambda>x. x \<noteq> c) url))"

text \<open>
  \<^verbatim>\<open>urlsplit(url)\<close>: the five components scheme, network location, path, query and
  fragment, or the \<^verbatim>\<open>ValueError\<close> of one of the checks. The bracket checks run when the
  network location is split off, \<^verbatim>\<open>_checknetloc\<close> at the end.
\<close>

definition urlsplit ::
  "pylib \<Rightarrow> string \<Rightarrow> py_error + (string \<times> string \<times> string \<times> string \<times> string)" where
  "urlsplit L url0 =
     (let url1 = remove_unsafe (lstrip_c0 url0);
          (scheme, url2) = split_scheme url1;
          (netloc, url3) = (if take 2 url2 = ''//'' then splitnetloc url2 else ([], url2))
      in case (if take 2 url2 = ''//'' then check_brackets L netloc else Inr ()) of
           Inl e \<Rightarrow> Inl e
         | Inr _ \<Rightarrow>
            (let (url4, fragment) = (if hash \<in> set url3 then split_once hash url3 else (url3, []));
                 (url5, query) = (if qmark \<in> set url4 then split_once qmark url4 else (url4, []))
             in case checknetloc L netloc of
                  Inl e \<Rightarrow> Inl e
                | Inr _ \<Rightarrow> Inr (scheme, netloc, url5, query, fragment)))"

text \<open>
  \<^verbatim>\<open>_splitparams(url)\<close>: with a slash in the URL, the parameters start at the first
  semicolon of the last segment (\<^verbatim>\<open>url.find(';', url.rfind('/'))\<close>), and there are none
  when that segment has no semicolon; without a slash they start at the first semicolon.
  \<^verbatim>\<open>find\<close> answers -1 when there is no semicolon at all, and the slices are then
  \<^verbatim>\<open>url[:-1]\<close> and \<^verbatim>\<open>url[0:]\<close>.
\<close>

definition splitparams :: "string \<Rightarrow> string \<times> string" where
  "splitparams url =
     (if slash \<in> set url
      then (let seg = rev (takeWhile (\<lambda>c. c \<noteq> slash) (rev url));
                front = rev (dropWhile (\<lambda>c. c \<noteq> slash) (rev url))
            in if semicolon \<in> set seg
               then (front @ takeWhile (\<lambda>c. c \<noteq> semicolon) seg,
                     tl (dropWhile (\<lambda>c. c \<noteq> semicolon) seg))
               else (url, []))
      else if semicolon \<in> set url then split_once semicolon url
      else (butlast url, url))"

record parse_result =
  scheme :: string
  netloc :: string
  path :: string
  params :: string
  query :: string
  fragment :: string

definition urlparse :: "pylib \<Rightarrow> string \<Rightarrow> py_error + parse_result" where
  "urlparse L url =
     (case urlsplit L url of
        Inl e \<Rightarrow> Inl e
      | Inr (sch, loc, url', qry, frag) \<Rightarrow>
          (let (url'', prm) = (if sch \<in> set uses_params \<and> semicolon \<in> set url'
                               then splitparams url' else (url', []))
           in Inr \<lparr>scheme = sch, netloc = loc, path = url'', params = prm,
                   query = qry, fragment = frag\<rparr>))"

text \<open>
  \<^verbatim>\<open>urlunsplit\<close>. When the two slashes and the network location are written depends on
  the release. In 3.11 it is
  \<^verbatim>\<open>if netloc or (scheme and scheme in uses_netloc) or url[:2] == '//'\<close>: there is a
  network location, or the scheme is one that uses it, or the path itself starts with two
  slashes. In 3.12 it is
  \<^verbatim>\<open>if netloc or (scheme and scheme in uses_netloc and url[:2] != '//')\<close>: a path that
  starts with two slashes gets them only with a network location. A path that does not
  start with a slash gets one in front then.
\<close>

definition writes_netloc :: "pylib \<Rightarrow> string \<Rightarrow> string \<Rightarrow> string \<Rightarrow> bool" where
  "writes_netloc L sch loc url =
     (case release L of
        Py_3_11 \<Rightarrow> loc \<noteq> [] \<or> (sch \<noteq> [] \<and> sch \<in> set (uses_netloc L)) \<or> take 2 url = ''//''
      | Py_3_12 \<Rightarrow> loc \<noteq> [] \<or> (sch \<noteq> [] \<and> sch \<in> set (uses_netloc L) \<and> take 2 url \<noteq> ''//''))"

definition urlunsplit ::
  "pylib \<Rightarrow> string \<times> string \<times> string \<times> string \<times> string \<Rightarrow> string" where
  "urlunsplit L comps =
     (let (sch, loc, url, qry, frag) = comps;
          url1 = (if writes_netloc L sch loc url
                  then ''//'' @ loc @ (if url \<noteq> [] \<and> take 1 url \<noteq> ''/'' then ''/'' @ url else url)
                  else url);
          url2 = (if sch \<noteq> [] then sch @ '':'' @ url1 else url1);
          url3 = (if qry \<noteq> [] then url2 @ ''?'' @ qry else url2)
      in if frag \<noteq> [] then url3 @ ''#'' @ frag else url3)"

definition urlunparse :: "pylib \<Rightarrow> parse_result \<Rightarrow> string" where
  "urlunparse L p =
     urlunsplit L (scheme p, netloc p,
       (if params p \<noteq> [] then path p @ '';'' @ params p else path p),
       query p, fragment p)"

section \<open>The URL functions of request.py\<close>

text \<open>
  \<^verbatim>\<open>is_valid_url\<close>: \<^verbatim>\<open>all([parsed_url.scheme, parsed_url.netloc])\<close> is true when both
  strings are non-empty. The \<^verbatim>\<open>ValueError\<close> of \<^verbatim>\<open>urlparse\<close> is not caught.
\<close>

definition is_valid_url :: "pylib \<Rightarrow> string \<Rightarrow> py_error + bool" where
  "is_valid_url L url =
     (case urlparse L url of
        Inl e \<Rightarrow> Inl e
      | Inr parsed_url \<Rightarrow> Inr (scheme parsed_url \<noteq> [] \<and> netloc parsed_url \<noteq> []))"

text \<open>
  \<^verbatim>\<open>normalize_url\<close>: backslashes become slashes, the URL is parsed, an empty scheme is
  replaced by \<^verbatim>\<open>https\<close>, the components are put together again, and \<^verbatim>\<open>///\<close> is replaced
  by \<^verbatim>\<open>//\<close> in the result.
\<close>

definition normalize_url :: "pylib \<Rightarrow> string \<Rightarrow> py_error + string" where
  "normalize_url L url =
     (let url1 = str_replace [backslash] ''/'' url in
      case urlparse L url1 of
        Inl e \<Rightarrow> Inl e
      | Inr parsed_url \<Rightarrow>
          (let parsed_url' = (if scheme parsed_url = [] then parsed_url\<lparr>scheme := ''https''\<rparr>
                              else parsed_url)
           in Inr (str_replace ''///'' ''//'' (urlunparse L parsed_url'))))"

text \<open>
  A library of each release for running the functions on ASCII URLs without a host in
  square brackets: there neither \<^verbatim>\<open>NFKC\<close> nor \<^verbatim>\<open>ip_address\<close> is called, so their answers
  do not matter.
\<close>

definition ascii_lib_3_11 :: pylib where
  "ascii_lib_3_11 = \<lparr>release = Py_3_11, nfkc = (\<lambda>s. s), ip_address = (\<lambda>h. None)\<rparr>"

definition ascii_lib_3_12 :: pylib where
  "ascii_lib_3_12 = \<lparr>release = Py_3_12, nfkc = (\<lambda>s. s), ip_address = (\<lambda>h. None)\<rparr>"

section \<open>JSON values and the HTTP transport\<close>

text \<open>
  What \<^verbatim>\<open>json.loads\<close> can return and \<^verbatim>\<open>json.dumps\<close> can take: \<^verbatim>\<open>None\<close>, a boolean, an
  integer, a float (kept as its 64 bits), a string, a list, or a dict with string keys
  (its items in insertion order, each key once).
\<close>

datatype jvalue =
    JNull
  | JBool bool
  | JInt int
  | JFloat "64 word"
  | JStr string
  | JArr "jvalue list"
  | JObj "(string \<times> jvalue) list"

text \<open>
  \<^verbatim>\<open>v.get(key)\<close>: a dict answers the value of the key, or \<^verbatim>\<open>None\<close> when the key is
  missing; no other JSON value has a method \<^verbatim>\<open>get\<close>.
\<close>

fun py_get :: "jvalue \<Rightarrow> string \<Rightarrow> py_error + jvalue" where
  "py_get (JObj items) key =
     Inr (case map_of items key of None \<Rightarrow> JNull | Some v \<Rightarrow> v)"
| "py_get v key = Inl AttributeError"

text \<open>
  \<^verbatim>\<open>for x in v\<close>: a list gives its elements, a string its characters, a dict its keys;
  \<^verbatim>\<open>None\<close>, booleans and numbers are not iterable.
\<close>

fun py_iter :: "jvalue \<Rightarrow> py_error + jvalue list" where
  "py_iter (JArr xs) = Inr xs"
| "py_iter (JStr s) = Inr (map (\<lambda>c. JStr [c]) s)"
| "py_iter (JObj items) = Inr (map (\<lambda>kv. JStr (fst kv)) items)"
| "py_iter v = Inl TypeError"

text \<open>
  \<^verbatim>\<open>sub in v\<close> for a string \<open>sub\<close>: the substring test on a string, membership in a list
  (an element equals \<open>sub\<close> only when it is that string), key membership in a dict, and a
  \<^verbatim>\<open>TypeError\<close> on \<^verbatim>\<open>None\<close>, booleans and numbers.
\<close>

fun py_in :: "string \<Rightarrow> jvalue \<Rightarrow> py_error + bool" where
  "py_in sub (JStr s) = Inr (str_contains sub s)"
| "py_in sub (JArr xs) = Inr (list_ex (\<lambda>x. x = JStr sub) xs)"
| "py_in sub (JObj items) = Inr (list_ex (\<lambda>kv. fst kv = sub) items)"
| "py_in sub v = Inl TypeError"

text \<open>
  The HTTP transport (\<^verbatim>\<open>requests.post\<close>, \<^verbatim>\<open>requests.get\<close>) is outside the module. A
  request is the record of what the module hands over; the payload stands for the text
  \<^verbatim>\<open>json.dumps\<close> makes of it. A response carries what the module reads:
  \<^verbatim>\<open>status_code\<close>, \<^verbatim>\<open>text\<close> (the field \<open>response_text\<close>) and the outcome of \<^verbatim>\<open>json()\<close>, which is the parsed body or
  the decoder's exception.
\<close>

datatype http_method = GET | POST

record http_request =
  http_method :: http_method
  url :: string
  headers :: "string \<rightharpoonup> string"
  data :: "(string \<rightharpoonup> jvalue) option"
  timeout :: "int option"

record http_response =
  status_code :: int
  response_text :: string
  json :: "py_error + jvalue"

text \<open>
  The server side is a function from the request to a response or to the exception of
  the transport (connection refused, timeout expired). The state of the network is the
  list of the requests sent so far; sending appends to it.
\<close>

type_synonym transport = "http_request \<Rightarrow> py_error + http_response"

definition send ::
  "transport \<Rightarrow> http_request \<Rightarrow> http_request list
     \<Rightarrow> (py_error + http_response) \<times> http_request list" where
  "send srv req sent = (srv req, sent @ [req])"

section \<open>chat_completion and valid_models\<close>

text \<open>
  The signature is
  \<^verbatim>\<open>chat_completion(api_key, chat_url, messages, model, timeout=0, **options)\<close>.
  \<^verbatim>\<open>**options\<close> collects the keyword arguments of a call that are not parameters of the
  function: a keyword named like a parameter is bound to that parameter, and given
  twice it is a \<^verbatim>\<open>TypeError\<close> at the call, before the body runs. So the dicts that
  \<open>options\<close> can be in the body are those without one of the five parameter names as a
  key: the type \<open>kwargs\<close>, with \<open>kwargs_dict\<close> the dict of its element.
\<close>

definition parameter_names :: "string list" where
  "parameter_names = [''api_key'', ''chat_url'', ''messages'', ''model'', ''timeout'']"

definition keyword_options :: "(string \<rightharpoonup> jvalue) \<Rightarrow> bool" where
  "keyword_options options = list_all (\<lambda>k. options k = None) parameter_names"

typedef kwargs = "{options :: string \<rightharpoonup> jvalue. keyword_options options}"
  morphisms kwargs_dict Abs_kwargs
  by (rule exI [of _ Map.empty]) (simp add: keyword_options_def parameter_names_def)

setup_lifting type_definition_kwargs

text \<open>
  Two calls: one without further keyword arguments, and one with \<^verbatim>\<open>temperature=1\<close>.
\<close>

lift_definition no_options :: kwargs is "Map.empty :: string \<rightharpoonup> jvalue"
  by (simp add: keyword_options_def parameter_names_def)


text \<open>
  The payload of lines 64 to 68, \<^verbatim>\<open>{"model": model, "messages": messages, **options}\<close>:
  in a dict display a later key replaces an earlier one, and \<^verbatim>\<open>**options\<close> comes last.
\<close>

definition chat_payload :: "string \<Rightarrow> jvalue list \<Rightarrow> kwargs \<Rightarrow> (string \<rightharpoonup> jvalue)" where
  "chat_payload model messages options =
     [''model'' \<mapsto> JStr model, ''messages'' \<mapsto> JArr messages] ++ kwargs_dict options"

definition chat_headers :: "string \<Rightarrow> (string \<rightharpoonup> string)" where
  "chat_headers api_key =
     [''Content-Type'' \<mapsto> ''application/json'', ''Authorization'' \<mapsto> ''Bearer '' @ api_key]"

text \<open>
  \<^verbatim>\<open>chat_completion\<close>: the result and the requests sent. A \<^verbatim>\<open>ValueError\<close> of
  \<^verbatim>\<open>normalize_url\<close> leaves before anything is sent; an exception of the transport is
  passed on; a status other than 200 raises \<^verbatim>\<open>Exception(response.text)\<close>; status 200
  returns \<^verbatim>\<open>response.json()\<close>.
\<close>

definition chat_completion ::
  "pylib \<Rightarrow> transport \<Rightarrow> string \<Rightarrow> string \<Rightarrow> jvalue list \<Rightarrow> string \<Rightarrow> int
     \<Rightarrow> kwargs \<Rightarrow> http_request list
     \<Rightarrow> (py_error + jvalue) \<times> http_request list" where
  "chat_completion L srv api_key chat_url messages model tmo options sent =
     (let payload = chat_payload model messages options;
          hdrs = chat_headers api_key
      in case normalize_url L chat_url of
           Inl e \<Rightarrow> (Inl e, sent)
         | Inr chat_url' \<Rightarrow>
            (let tmo' = (if tmo \<le> 0 then None else Some tmo);
                 (r, sent') = send srv \<lparr>http_method = POST, url = chat_url', headers = hdrs,
                                         data = Some payload, timeout = tmo'\<rparr> sent
             in case r of
                  Inl e \<Rightarrow> (Inl e, sent')
                | Inr response \<Rightarrow>
                    if status_code response \<noteq> 200 then (Inl (Exception (response_text response)), sent')
                    else (json response, sent')))"

text \<open>\<^verbatim>\<open>os.path.join(a, b)\<close> of \<^verbatim>\<open>posixpath\<close>.\<close>

definition os_path_join :: "string \<Rightarrow> string \<Rightarrow> string" where
  "os_path_join a b =
     (if take 1 b = ''/'' then b
      else if a = [] \<or> last a = slash then a @ b
      else a @ ''/'' @ b)"

text \<open>
  The two comprehensions of \<^verbatim>\<open>valid_models\<close>. Each runs through its list from the left
  and the first exception ends it: \<^verbatim>\<open>[model.get("id") for model in ...]\<close> and
  \<^verbatim>\<open>[model for model in model_list if "gpt" in model]\<close>.
\<close>

fun model_ids :: "jvalue list \<Rightarrow> py_error + jvalue list" where
  "model_ids [] = Inr []"
| "model_ids (m # ms) =
     (case py_get m ''id'' of
        Inl e \<Rightarrow> Inl e
      | Inr v \<Rightarrow> (case model_ids ms of Inl e \<Rightarrow> Inl e | Inr vs \<Rightarrow> Inr (v # vs)))"

fun gpt_models :: "jvalue list \<Rightarrow> py_error + jvalue list" where
  "gpt_models [] = Inr []"
| "gpt_models (m # ms) =
     (case py_in ''gpt'' m of
        Inl e \<Rightarrow> Inl e
      | Inr b \<Rightarrow> (case gpt_models ms of
                    Inl e \<Rightarrow> Inl e
                  | Inr vs \<Rightarrow> Inr (if b then m # vs else vs)))"

text \<open>The branch of \<^verbatim>\<open>valid_models\<close> for status 200, lines 103 to 105.\<close>

definition models_of_body :: "py_error + jvalue \<Rightarrow> bool \<Rightarrow> py_error + jvalue list" where
  "models_of_body body gpt_only =
     (case body of
        Inl e \<Rightarrow> Inl e
      | Inr dat \<Rightarrow>
         (case py_get dat ''data'' of
            Inl e \<Rightarrow> Inl e
          | Inr entries \<Rightarrow>
             (case py_iter entries of
                Inl e \<Rightarrow> Inl e
              | Inr ms \<Rightarrow>
                 (case model_ids ms of
                    Inl e \<Rightarrow> Inl e
                  | Inr model_list \<Rightarrow>
                      if gpt_only then gpt_models model_list else Inr model_list))))"

definition models_headers :: "string \<Rightarrow> (string \<rightharpoonup> string)" where
  "models_headers api_key =
     [''Authorization'' \<mapsto> ''Bearer '' @ api_key, ''Content-Type'' \<mapsto> ''application/json'']"

definition valid_models ::
  "pylib \<Rightarrow> transport \<Rightarrow> string \<Rightarrow> string \<Rightarrow> bool \<Rightarrow> http_request list
     \<Rightarrow> (py_error + jvalue list) \<times> http_request list" where
  "valid_models L srv api_key base_url gpt_only sent =
     (let hdrs = models_headers api_key in
      case normalize_url L (os_path_join base_url ''v1/models'') of
        Inl e \<Rightarrow> (Inl e, sent)
      | Inr models_url \<Rightarrow>
         (let (r, sent') = send srv \<lparr>http_method = GET, url = models_url, headers = hdrs,
                                      data = None, timeout = None\<rparr> sent
          in case r of
               Inl e \<Rightarrow> (Inl e, sent')
             | Inr models_response \<Rightarrow>
                 if status_code models_response = 200
                 then (models_of_body (json models_response) gpt_only, sent')
                 else (Inl (Exception (response_text models_response)), sent')))"

section \<open>Notions for the proofs\<close>

text \<open>
  The rest of the definitions are not code of the module. They name what the proofs
  about \<^verbatim>\<open>normalize_url\<close> speak of: the replacement of \<^verbatim>\<open>///\<close> by \<^verbatim>\<open>//\<close>, strings
  without a backslash, tab, carriage return or line feed, a scheme as \<^verbatim>\<open>urlsplit\<close>
  returns it, the pieces \<^verbatim>\<open>urlunsplit\<close> puts together, the properties of the components
  \<^verbatim>\<open>urlsplit\<close> returns, the last segment of a path, and what \<^verbatim>\<open>urlparse\<close> followed by
  \<^verbatim>\<open>urlunparse\<close> does to a path: a semicolon that ends the path with empty parameters
  is dropped.
\<close>

abbreviation collapse :: "string \<Rightarrow> string" where
  "collapse \<equiv> replace_from ''///'' ''//''"

definition clean :: "string \<Rightarrow> bool" where
  "clean x = (set x \<inter> set (backslash # unsafe_url_bytes) = {})"

definition scheme_ok :: "string \<Rightarrow> bool" where
  "scheme_ok sch =
     (sch \<noteq> [] \<and> ascii_alpha (hd sch) \<and> list_all (\<lambda>c. c \<in> set scheme_chars) sch \<and>
      str_lower sch = sch)"

definition split_rest :: "string \<Rightarrow> string \<times> string \<times> string" where
  "split_rest s3 =
     (let s4 = takeWhile (\<lambda>x. x \<noteq> hash) s3 in
      (takeWhile (\<lambda>x. x \<noteq> qmark) s4,
       if qmark \<in> set s4 then tl (dropWhile (\<lambda>x. x \<noteq> qmark) s4) else [],
       if hash \<in> set s3 then tl (dropWhile (\<lambda>x. x \<noteq> hash) s3) else []))"

definition qpart :: "string \<Rightarrow> string" where
  "qpart Q = (if Q \<noteq> [] then qmark # Q else [])"

definition fpart :: "string \<Rightarrow> string" where
  "fpart F = (if F \<noteq> [] then hash # F else [])"

definition url_body :: "pylib \<Rightarrow> string \<Rightarrow> string \<Rightarrow> string \<Rightarrow> string" where
  "url_body L sch N V =
     (if writes_netloc L sch N V
      then ''//'' @ N @ (if V \<noteq> [] \<and> take 1 V \<noteq> ''/'' then ''/'' @ V else V)
      else V)"

definition no_delims :: "string \<Rightarrow> bool" where
  "no_delims N = (set N \<inter> set netloc_delims = {})"

definition wf_split :: "string \<times> string \<times> string \<times> string \<times> string \<Rightarrow> bool" where
  "wf_split c =
     (case c of (sch, N, V, Q, F) \<Rightarrow>
        no_delims N \<and> hash \<notin> set V \<and> qmark \<notin> set V \<and> hash \<notin> set Q \<and>
        (N \<noteq> [] \<longrightarrow> V = [] \<or> hd V = slash) \<and>
        clean N \<and> clean V \<and> clean Q \<and> clean F)"

definition lastseg :: "string \<Rightarrow> string" where
  "lastseg V = rev (takeWhile (\<lambda>c. c \<noteq> slash) (rev V))"

definition param_stable :: "string \<Rightarrow> bool" where
  "param_stable V =
     (\<not> (semicolon \<in> set (lastseg V) \<and> tl (dropWhile (\<lambda>c. c \<noteq> semicolon) (lastseg V)) = []))"

definition fixp :: "string \<Rightarrow> string \<Rightarrow> string" where
  "fixp sch U =
     (case (if sch \<in> set uses_params \<and> semicolon \<in> set U then splitparams U else (U, [])) of
        (P, M) \<Rightarrow> if M \<noteq> [] then P @ semicolon # M else P)"

section \<open>Facts about strings\<close>

lemma collapse_no_slash:
  "slash \<notin> set s \<Longrightarrow> replace_from ''///'' ''//'' (s @ t) = s @ replace_from ''///'' ''//'' t"
  by (induction s) (auto simp: slash_def)

lemma str_contains_iff: "str_contains sub s \<longleftrightarrow> (\<exists>p q. s = p @ sub @ q)"
proof (induction s)
  case Nil
  then show ?case by auto
next
  case (Cons c cs)
  show ?case
  proof
    assume "str_contains sub (c # cs)"
    then consider "take (length sub) (c # cs) = sub" | "str_contains sub cs" by auto
    then show "\<exists>p q. c # cs = p @ sub @ q"
    proof cases
      case 1
      then have "c # cs = [] @ sub @ drop (length sub) (c # cs)"
        by (metis append_Nil append_take_drop_id)
      then show ?thesis by blast
    next
      case 2
      then obtain p q where "cs = p @ sub @ q" using Cons.IH by blast
      then have "c # cs = (c # p) @ sub @ q" by simp
      then show ?thesis by blast
    qed
  next
    assume "\<exists>p q. c # cs = p @ sub @ q"
    then obtain p q where pq: "c # cs = p @ sub @ q" by blast
    show "str_contains sub (c # cs)"
    proof (cases p)
      case Nil
      then have "take (length sub) (c # cs) = sub" using pq by simp
      then show ?thesis by simp
    next
      case (Cons a p')
      then have "cs = p' @ sub @ q" using pq by simp
      then show ?thesis using Cons.IH by auto
    qed
  qed
qed

lemmas chars = slash_def colon_def semicolon_def qmark_def hash_def backslash_def

lemma collapse_other: "x \<noteq> CHR ''/'' \<Longrightarrow> collapse (x # xs) = x # collapse xs"
  by simp

lemma collapse_triple: "collapse (CHR ''/'' # CHR ''/'' # CHR ''/'' # xs) = ''//'' @ collapse xs"
  by simp

lemma collapse_not: "take 3 (y # ys) \<noteq> ''///'' \<Longrightarrow> collapse (y # ys) = y # collapse ys"
  by (auto simp add: numeral_2_eq_2 numeral_3_eq_3)

lemma take3_append:
  assumes "take 3 (a @ b) = ''///''" and "(a = [] \<or> last a \<noteq> CHR ''/'') \<or> (b = [] \<or> hd b \<noteq> CHR ''/'')"
    and "a \<noteq> []"
  shows "take 3 a = ''///''"
proof (cases a)
  case Nil
  then show ?thesis using assms(3) by simp
next
  case a1: (Cons x1 r1)
  show ?thesis
  proof (cases r1)
    case Nil
    then show ?thesis using assms a1 by (cases b) (auto split: if_splits)
  next
    case a2: (Cons x2 r2)
    show ?thesis
    proof (cases r2)
      case Nil
      then show ?thesis using assms a1 a2 by (cases b) (auto split: if_splits)
    next
      case (Cons x3 r3)
      then show ?thesis using assms a1 a2 by simp
    qed
  qed
qed

lemma collapse_append:
  "(a = [] \<or> last a \<noteq> CHR ''/'') \<or> (b = [] \<or> hd b \<noteq> CHR ''/'') \<Longrightarrow>
   collapse (a @ b) = collapse a @ collapse b"
proof (induction "length a" arbitrary: a rule: less_induct)
  case less
  show ?case
  proof (cases a)
    case Nil
    then show ?thesis by simp
  next
    case (Cons y a')
    show ?thesis
    proof (cases "take 3 (a @ b) = ''///''")
      case True
      have t: "take 3 a = ''///''"
        using take3_append [OF True less.prems] Cons by simp
      have la: "length a \<ge> 3"
      proof (rule ccontr)
        assume "\<not> 3 \<le> length a"
        then have "length (take 3 a) < 3" by simp
        then show False using t by simp
      qed
      obtain d where d: "a = ''///'' @ d"
        using t by (metis append_take_drop_id)
      have ld: "length d < length a" using d by simp
      have "(d = [] \<or> last d \<noteq> CHR ''/'') \<or> (b = [] \<or> hd b \<noteq> CHR ''/'')"
        using less.prems d by (cases "d = []") auto
      then have ih: "collapse (d @ b) = collapse d @ collapse b"
        using less.hyps ld by blast
      show ?thesis unfolding d using ih by simp
    next
      case False
      have f2: "take 3 a \<noteq> ''///''"
      proof
        assume t: "take 3 a = ''///''"
        have "3 \<le> length a"
        proof (rule ccontr)
          assume "\<not> 3 \<le> length a"
          then have "length (take 3 a) < 3" by simp
          then show False using t by simp
        qed
        then have "take 3 (a @ b) = take 3 a" by simp
        then show False using t False by simp
      qed
      have "(a' = [] \<or> last a' \<noteq> CHR ''/'') \<or> (b = [] \<or> hd b \<noteq> CHR ''/'')"
        using less.prems Cons by (cases "a' = []") auto
      then have ih: "collapse (a' @ b) = collapse a' @ collapse b"
        using less.hyps Cons by simp
      have "collapse (y # (a' @ b)) = y # collapse (a' @ b)"
        using False Cons by (intro collapse_not) simp
      moreover have "collapse (y # a') = y # collapse a'"
        using f2 Cons by (intro collapse_not) simp
      ultimately show ?thesis using ih Cons by simp
    qed
  qed
qed

lemma collapse_induct [case_names Nil Triple Other]:
  assumes "P []"
    and "\<And>xs. P xs \<Longrightarrow> P (''///'' @ xs)"
    and "\<And>y ys. take 3 (y # ys) \<noteq> ''///'' \<Longrightarrow> P ys \<Longrightarrow> P (y # ys)"
  shows "P x"
proof (induction "length x" arbitrary: x rule: less_induct)
  case less
  show ?case
  proof (cases x)
    case Nil
    then show ?thesis using assms(1) by simp
  next
    case (Cons y ys)
    show ?thesis
    proof (cases "take 3 x = ''///''")
      case True
      then obtain d where d: "x = ''///'' @ d" by (metis append_take_drop_id)
      then have "P d" using less by simp
      then show ?thesis unfolding d by (rule assms(2))
    next
      case False
      have "P ys" using less Cons by simp
      then show ?thesis using False Cons assms(3) by simp
    qed
  qed
qed

lemma set_collapse: "set (collapse x) \<subseteq> set x"
proof (induction x rule: collapse_induct)
  case Nil
  then show ?case by simp
next
  case (Triple xs)
  then show ?case by auto
next
  case (Other y ys)
  then show ?case using collapse_not [OF Other(1)] by auto
qed

lemma length_collapse: "length (collapse x) \<le> length x"
proof (induction x rule: collapse_induct)
  case Nil
  then show ?case by simp
next
  case (Triple xs)
  then show ?case by simp
next
  case (Other y ys)
  then show ?case using collapse_not [OF Other(1)] by simp
qed

lemma collapse_eq_Nil [simp]: "collapse x = [] \<longleftrightarrow> x = []"
proof (induction x rule: collapse_induct)
  case Nil
  then show ?case by simp
next
  case (Triple xs)
  then show ?case by simp
next
  case (Other y ys)
  then show ?case using collapse_not [OF Other(1)] by simp
qed

lemma hd_collapse: "x \<noteq> [] \<Longrightarrow> hd (collapse x) = hd x"
proof (induction x rule: collapse_induct)
  case Nil
  then show ?case by simp
next
  case (Triple xs)
  then show ?case by simp
next
  case (Other y ys)
  then show ?case using collapse_not [OF Other(1)] by simp
qed

lemma last_collapse: "x \<noteq> [] \<Longrightarrow> last (collapse x) = last x"
proof (induction x rule: collapse_induct)
  case Nil
  then show ?case by simp
next
  case (Triple xs)
  then show ?case by (cases "xs = []") simp_all
next
  case (Other y ys)
  then show ?case using collapse_not [OF Other(1)] by (cases "ys = []") simp_all
qed

lemma take2_collapse:
  assumes a: "take 2 (collapse x) = ''//''"
  shows "take 2 x = ''//''"
proof (cases x)
  case Nil
  then show ?thesis using a by simp
next
  case (Cons y ys)
  show ?thesis
  proof (cases "take 3 x = ''///''")
    case True
    then obtain d where d: "x = ''///'' @ d" by (metis append_take_drop_id)
    then show ?thesis by simp
  next
    case False
    then have c: "collapse x = y # collapse ys"
      using Cons collapse_not by simp
    then have y: "y = CHR ''/''" and t: "take 1 (collapse ys) = ''/''"
      using a by (simp_all add: numeral_2_eq_2)
    then have ne: "ys \<noteq> []" by auto
    then have "hd (collapse ys) = CHR ''/''"
      using t by (cases "collapse ys") simp_all
    then have "hd ys = CHR ''/''" using hd_collapse [OF ne] by simp
    then show ?thesis using y ne Cons by (cases ys) (simp_all add: numeral_2_eq_2)
  qed
qed

lemma collapse_fixed: "\<not> str_contains ''///'' x \<Longrightarrow> collapse x = x"
proof (induction x rule: collapse_induct)
  case Nil
  then show ?case by simp
next
  case (Triple xs)
  have "str_contains ''///'' (''///'' @ xs)"
    using str_contains_iff [of "''///''" "''///'' @ xs"] by (metis append_Nil)
  then show ?case using Triple by simp
next
  case (Other y ys)
  have "\<not> str_contains ''///'' ys" using Other(3) by simp
  then show ?case using Other collapse_not [OF Other(1)] by simp
qed

lemma collapse_shorter: "str_contains ''///'' x \<Longrightarrow> length (collapse x) < length x"
proof (induction x rule: collapse_induct)
  case Nil
  then show ?case by simp
next
  case (Triple xs)
  have "length (collapse xs) \<le> length xs" by (rule length_collapse)
  then show ?case by simp
next
  case (Other y ys)
  have "str_contains ''///'' ys" using Other(1) Other(3) by (auto simp add: numeral_3_eq_3 numeral_2_eq_2)
  then show ?case using Other collapse_not [OF Other(1)] by simp
qed

lemma collapse_fixed_iff: "collapse x = x \<longleftrightarrow> \<not> str_contains ''///'' x"
  using collapse_fixed collapse_shorter by (metis less_irrefl)

lemma collapse_no_four:
  "str_contains ''///'' (collapse x) \<Longrightarrow> str_contains ''////'' x"
proof (induction x rule: collapse_induct)
  case Nil
  then show ?case by simp
next
  case (Triple xs)
  have c: "collapse (''///'' @ xs) = ''//'' @ collapse xs" by simp
  show ?case
  proof (cases "str_contains ''///'' (collapse xs)")
    case True
    then have "str_contains ''////'' xs" using Triple.IH by simp
    then show ?thesis by simp
  next
    case False
    then have "take 3 (''//'' @ collapse xs) = ''///'' \<or> take 3 (''/'' @ collapse xs) = ''///''"
      using Triple.prems unfolding c by (simp add: numeral_3_eq_3)
    then have "xs \<noteq> [] \<and> hd (collapse xs) = CHR ''/''"
      by (cases "collapse xs") (auto simp: numeral_3_eq_3)
    then have "xs \<noteq> [] \<and> hd xs = CHR ''/''" using hd_collapse [of xs] by auto
    then obtain ys where "xs = CHR ''/'' # ys" by (cases xs) auto
    then show ?thesis by (simp add: numeral_eq_Suc)
  qed
next
  case (Other y ys)
  have c: "collapse (y # ys) = y # collapse ys" using Other(1) by (rule collapse_not)
  show ?case
  proof (cases "str_contains ''///'' (collapse ys)")
    case True
    then have "str_contains ''////'' ys" using Other.IH by simp
    then show ?thesis by simp
  next
    case False
    then have t: "take 3 (y # collapse ys) = ''///''"
      using Other.prems unfolding c by (auto simp add: numeral_3_eq_3 numeral_2_eq_2)
    then have y: "y = CHR ''/''" and t2: "take 2 (collapse ys) = ''//''"
      by (auto simp add: numeral_3_eq_3 numeral_2_eq_2)
    have "take 2 ys = ''//''" using t2 by (rule take2_collapse)
    then have "take 3 (y # ys) = ''///''" using y by (simp add: numeral_3_eq_3 numeral_2_eq_2)
    then show ?thesis using Other(1) by simp
  qed
qed

lemma str_replace_collapse: "str_replace ''///'' ''//'' x = collapse x"
  by (simp add: str_replace_def)

lemma takeWhile_sep: "c \<notin> set a \<Longrightarrow> takeWhile (\<lambda>x. x \<noteq> c) (a @ c # b) = a"
  by (induction a) auto

lemma dropWhile_sep: "c \<notin> set a \<Longrightarrow> dropWhile (\<lambda>x. x \<noteq> c) (a @ c # b) = c # b"
  by (induction a) auto

lemma takeWhile_none: "c \<notin> set a \<Longrightarrow> takeWhile (\<lambda>x. x \<noteq> c) a = a"
  by (induction a) auto

lemma hd_butlast: "butlast U \<noteq> [] \<Longrightarrow> hd (butlast U) = hd U"
  by (cases U) (auto split: if_splits)

lemma replace_single_empty: "replace_from [b] [] s = filter (\<lambda>c. c \<noteq> b) s"
  by (induction s) auto

lemma replace_single: "replace_from [b] [a] s = map (\<lambda>c. if c = b then a else c) s"
  by (induction s) auto

lemma bsrep_map:
  "str_replace [backslash] ''/'' s = map (\<lambda>c. if c = backslash then CHR ''/'' else c) s"
  by (simp add: str_replace_def replace_single)

lemma bsrep_no_backslash: "backslash \<notin> set (str_replace [backslash] ''/'' s)"
  unfolding bsrep_map by (auto simp: backslash_def)

lemma bsrep_id: "backslash \<notin> set s \<Longrightarrow> str_replace [backslash] ''/'' s = s"
  unfolding bsrep_map by (induction s) auto

section \<open>Schemes and clean strings\<close>

lemma scheme_chars_facts:
  "list_all (\<lambda>c. lower_char c \<in> set scheme_chars \<and> lower_char (lower_char c) = lower_char c \<and>
       (ascii_alpha c \<longrightarrow> ascii_alpha (lower_char c)) \<and>
       c \<notin> set ''/:?#;'' \<and> c \<noteq> backslash \<and> c \<notin> set unsafe_url_bytes \<and>
       \<not> (of_char c :: nat) \<le> 32) scheme_chars"
  by code_simp

lemma scheme_char:
  assumes "c \<in> set scheme_chars"
  shows "lower_char c \<in> set scheme_chars" and "lower_char (lower_char c) = lower_char c"
    and "ascii_alpha c \<Longrightarrow> ascii_alpha (lower_char c)"
    and "c \<notin> set ''/:?#;''" and "c \<noteq> backslash" and "c \<notin> set unsafe_url_bytes"
    and "\<not> (of_char c :: nat) \<le> 32"
  using scheme_chars_facts assms unfolding list_all_iff by blast+

lemma scheme_ok_chars:
  assumes "scheme_ok sch" and "c \<in> set sch"
  shows "c \<in> set scheme_chars"
  using assms unfolding scheme_ok_def list_all_iff by blast

lemma scheme_ok_no_delim:
  assumes "scheme_ok sch"
  shows "slash \<notin> set sch" and "colon \<notin> set sch" and "clean sch"
proof -
  have a: "\<And>c. c \<in> set sch \<Longrightarrow> c \<notin> set ''/:?#;'' \<and> c \<noteq> backslash \<and> c \<notin> set unsafe_url_bytes"
    using scheme_ok_chars [OF assms] scheme_char(4,5,6) by blast
  show "slash \<notin> set sch" using a by (auto simp: chars)
  show "colon \<notin> set sch" using a by (auto simp: chars)
  show "clean sch" using a unfolding clean_def by auto
qed

lemma scheme_ok_lower:
  assumes "pre \<noteq> []" and "ascii_alpha (hd pre)" and "list_all (\<lambda>c. c \<in> set scheme_chars) pre"
  shows "scheme_ok (str_lower pre)"
proof -
  have m: "\<And>c. c \<in> set pre \<Longrightarrow> c \<in> set scheme_chars"
    using assms(3) unfolding list_all_iff by blast
  have "hd pre \<in> set scheme_chars" using m assms(1) by simp
  then have "ascii_alpha (lower_char (hd pre))" using scheme_char(3) assms(2) by blast
  then have h: "ascii_alpha (hd (str_lower pre))"
    using assms(1) by (simp add: str_lower_def hd_map)
  have l: "list_all (\<lambda>c. c \<in> set scheme_chars) (str_lower pre)"
    using m scheme_char(1) unfolding list_all_iff str_lower_def by auto
  have i: "str_lower (str_lower pre) = str_lower pre"
    using m scheme_char(2) unfolding str_lower_def by auto
  show ?thesis unfolding scheme_ok_def using assms(1) h l i by (simp add: str_lower_def)
qed

lemma scheme_ok_https: "scheme_ok ''https''"
  unfolding scheme_ok_def by code_simp

lemma split_scheme_cases:
  assumes "split_scheme u = (sch, rest)"
  shows "(sch = [] \<and> rest = u) \<or> (scheme_ok sch \<and> set rest \<subseteq> set u)"
proof (cases "sch = []")
  case True
  then show ?thesis using assms
    by (auto simp: split_scheme_def Let_def str_lower_def split: if_splits)
next
  case False
  then have p: "takeWhile (\<lambda>c. c \<noteq> colon) u \<noteq> []" "ascii_alpha (hd u)"
      "list_all (\<lambda>c. c \<in> set scheme_chars) (takeWhile (\<lambda>c. c \<noteq> colon) u)"
      "sch = str_lower (takeWhile (\<lambda>c. c \<noteq> colon) u)"
      "rest = tl (dropWhile (\<lambda>c. c \<noteq> colon) u)"
    using assms by (auto simp: split_scheme_def Let_def split: if_splits)
  have "hd (takeWhile (\<lambda>c. c \<noteq> colon) u) = hd u"
    using p(1) by (cases u) (auto split: if_splits)
  then have "scheme_ok sch" using scheme_ok_lower p by simp
  moreover have "set rest \<subseteq> set u"
    using p(5) by (metis list.sel(2) list.set_sel(2) set_dropWhileD subsetI)
  ultimately show ?thesis by simp
qed

lemma split_scheme_join:
  assumes "scheme_ok sch"
  shows "split_scheme (sch @ colon # rest) = (sch, rest)"
proof -
  have c: "colon \<notin> set sch" using scheme_ok_no_delim(2) [OF assms] .
  then have t: "takeWhile (\<lambda>c. c \<noteq> colon) (sch @ colon # rest) = sch"
    by (rule takeWhile_sep)
  have d: "dropWhile (\<lambda>c. c \<noteq> colon) (sch @ colon # rest) = colon # rest"
    using c by (rule dropWhile_sep)
  have h: "hd (sch @ colon # rest) = hd sch" using assms by (simp add: scheme_ok_def)
  show ?thesis
    using assms unfolding split_scheme_def Let_def t d h by (simp add: scheme_ok_def)
qed

lemma remove_unsafe_filter:
  "remove_unsafe s = filter (\<lambda>c. c \<notin> set unsafe_url_bytes) s"
proof -
  have "remove_unsafe s = filter (\<lambda>c. c \<noteq> CHR 0x0A) (filter (\<lambda>c. c \<noteq> CHR 0x0D)
      (filter (\<lambda>c. c \<noteq> CHR 0x09) s))"
    by (simp add: remove_unsafe_def unsafe_url_bytes_def str_replace_def replace_single_empty)
  also have "\<dots> = filter (\<lambda>c. c \<notin> set unsafe_url_bytes) s"
    by (induction s) (auto simp: unsafe_url_bytes_def)
  finally show ?thesis .
qed

lemma clean_input:
  assumes "backslash \<notin> set s"
  shows "clean (remove_unsafe (lstrip_c0 s))"
proof -
  have "set (lstrip_c0 s) \<subseteq> set s"
    unfolding lstrip_c0_def by (auto dest: set_dropWhileD)
  then show ?thesis using assms unfolding clean_def remove_unsafe_filter by auto
qed

lemma clean_subset: "clean y \<Longrightarrow> set x \<subseteq> set y \<Longrightarrow> clean x"
  unfolding clean_def by auto

lemma clean_unchanged:
  assumes "scheme_ok sch" and "clean x"
  shows "remove_unsafe (lstrip_c0 (sch @ x)) = sch @ x"
proof -
  have "hd sch \<in> set scheme_chars" using assms(1) scheme_ok_chars [OF assms(1)]
    by (simp add: scheme_ok_def)
  then have "\<not> (of_char (hd sch) :: nat) \<le> 32" using scheme_char(7) by blast
  then have l: "lstrip_c0 (sch @ x) = sch @ x"
    using assms(1) unfolding lstrip_c0_def scheme_ok_def by (cases sch) auto
  have "clean (sch @ x)"
    using scheme_ok_no_delim(3) [OF assms(1)] assms(2) unfolding clean_def by auto
  then have "filter (\<lambda>c. c \<notin> set unsafe_url_bytes) (sch @ x) = sch @ x"
    unfolding clean_def by (intro filter_True) auto
  then show ?thesis using l by (simp add: remove_unsafe_filter)
qed

lemma clean_no_backslash: "clean x \<Longrightarrow> backslash \<notin> set x"
  unfolding clean_def by auto

section \<open>urlsplit and urlunsplit\<close>



lemma urlunsplit_parts:
  "urlunsplit L (sch, N, V, Q, F) =
     (if sch \<noteq> [] then sch @ [colon] else []) @ url_body L sch N V @ qpart Q @ fpart F"
  by (simp add: urlunsplit_def url_body_def qpart_def fpart_def Let_def chars)

lemma split_once_if:
  "(if c \<in> set s3 then split_once c s3 else (s3, [])) =
     (takeWhile (\<lambda>x. x \<noteq> c) s3, if c \<in> set s3 then tl (dropWhile (\<lambda>x. x \<noteq> c) s3) else [])"
  by (simp add: split_once_def takeWhile_none)

lemma urlsplit_eq:
  "urlsplit L s =
     (case split_scheme (remove_unsafe (lstrip_c0 s)) of (sch, s2) \<Rightarrow>
        if take 2 s2 = ''//''
        then (case check_brackets L (takeWhile (\<lambda>c. c \<notin> set netloc_delims) (drop 2 s2)) of
                Inl e \<Rightarrow> Inl e
              | Inr _ \<Rightarrow>
                 (case checknetloc L (takeWhile (\<lambda>c. c \<notin> set netloc_delims) (drop 2 s2)) of
                    Inl e \<Rightarrow> Inl e
                  | Inr _ \<Rightarrow>
                     (case split_rest (dropWhile (\<lambda>c. c \<notin> set netloc_delims) (drop 2 s2)) of
                        (U, Q, F) \<Rightarrow>
                          Inr (sch, takeWhile (\<lambda>c. c \<notin> set netloc_delims) (drop 2 s2), U, Q, F))))
        else (case checknetloc L [] of
                Inl e \<Rightarrow> Inl e
              | Inr _ \<Rightarrow> (case split_rest s2 of (U, Q, F) \<Rightarrow> Inr (sch, [], U, Q, F))))"
  unfolding urlsplit_def split_once_if
  by (simp add: splitnetloc_def split_rest_def Let_def split: prod.splits sum.splits)

lemma checknetloc_Nil [simp]: "checknetloc L [] = Inr ()"
  by (simp add: checknetloc_def)

lemma check_brackets_Nil [simp]: "check_brackets L [] = Inr ()"
  by (simp add: check_brackets_def)

lemma check_bracketed_host_error: "check_bracketed_host L h = Inl e \<Longrightarrow> e = ValueError"
  by (auto simp: check_bracketed_host_def split: if_splits option.splits ip_version.splits)

lemma check_brackets_error: "check_brackets L N = Inl e \<Longrightarrow> e = ValueError"
  by (auto simp: check_brackets_def check_bracketed_netloc_def Let_def
      split: if_splits cpython.splits dest: check_bracketed_host_error)

lemma checknetloc_error: "checknetloc L N = Inl e \<Longrightarrow> e = ValueError"
  by (auto simp: checknetloc_def Let_def split: if_splits)

lemma urlsplit_error: "urlsplit L s = Inl e \<Longrightarrow> e = ValueError"
  unfolding urlsplit_eq
  by (auto split: prod.splits if_splits sum.splits
      dest: check_brackets_error checknetloc_error)

lemma split_rest_props:
  assumes "split_rest s3 = (U, Q, F)"
  shows "hash \<notin> set U" and "qmark \<notin> set U" and "hash \<notin> set Q"
    and "set U \<subseteq> set s3" and "set Q \<subseteq> set s3" and "set F \<subseteq> set s3"
    and "s3 = [] \<or> hd s3 \<in> set netloc_delims \<Longrightarrow> U = [] \<or> hd U = slash"
proof -
  let ?s4 = "takeWhile (\<lambda>x. x \<noteq> hash) s3"
  have U: "U = takeWhile (\<lambda>x. x \<noteq> qmark) ?s4"
    and Q: "Q = (if qmark \<in> set ?s4 then tl (dropWhile (\<lambda>x. x \<noteq> qmark) ?s4) else [])"
    and F: "F = (if hash \<in> set s3 then tl (dropWhile (\<lambda>x. x \<noteq> hash) s3) else [])"
    using assms by (simp_all add: split_rest_def Let_def)
  have s4: "hash \<notin> set ?s4" by (auto dest: set_takeWhileD)
  have sub4: "set ?s4 \<subseteq> set s3" by (auto dest: set_takeWhileD)
  show "hash \<notin> set U" using s4 unfolding U by (auto dest: set_takeWhileD)
  show "qmark \<notin> set U" unfolding U by (auto dest: set_takeWhileD)
  have tlsub: "\<And>xs :: string. set (tl xs) \<subseteq> set xs"
    by (metis list.sel(2) list.set_sel(2) subsetI)
  have qsub: "set Q \<subseteq> set ?s4"
    unfolding Q using tlsub set_dropWhileD by fastforce
  show "hash \<notin> set Q" using qsub s4 by auto
  show "set U \<subseteq> set s3" using sub4 unfolding U by (auto dest: set_takeWhileD)
  show "set Q \<subseteq> set s3" using qsub sub4 by auto
  show "set F \<subseteq> set s3" unfolding F using tlsub set_dropWhileD by fastforce
  show "U = [] \<or> hd U = slash" if "s3 = [] \<or> hd s3 \<in> set netloc_delims"
  proof (cases s3)
    case Nil
    then show ?thesis unfolding U by simp
  next
    case (Cons x xs)
    then have "x = slash \<or> x = qmark \<or> x = hash"
      using that by (auto simp: netloc_delims_def chars)
    then show ?thesis unfolding U Cons by (auto simp: chars)
  qed
qed

lemma split_rest_join:
  assumes "hash \<notin> set V" and "qmark \<notin> set V" and "hash \<notin> set Q"
  shows "split_rest (V @ qpart Q @ fpart F) = (V, Q, F)"
proof -
  have nq: "hash \<noteq> qmark" by (simp add: chars)
  have hq: "hash \<notin> set (V @ qpart Q)" using assms nq by (auto simp: qpart_def)
  have s4: "takeWhile (\<lambda>x. x \<noteq> hash) (V @ qpart Q @ fpart F) = V @ qpart Q"
  proof (cases "F = []")
    case True
    then show ?thesis using hq takeWhile_none [of hash "V @ qpart Q"] by (simp add: fpart_def)
  next
    case False
    then show ?thesis using hq takeWhile_sep [of hash "V @ qpart Q" F] by (simp add: fpart_def)
  qed
  have f: "(if hash \<in> set (V @ qpart Q @ fpart F)
            then tl (dropWhile (\<lambda>x. x \<noteq> hash) (V @ qpart Q @ fpart F)) else []) = F"
  proof (cases "F = []")
    case True
    then show ?thesis using hq by (simp add: fpart_def)
  next
    case False
    then show ?thesis using hq dropWhile_sep [of hash "V @ qpart Q" F] by (simp add: fpart_def)
  qed
  have u: "takeWhile (\<lambda>x. x \<noteq> qmark) (V @ qpart Q) = V"
  proof (cases "Q = []")
    case True
    then show ?thesis using assms(2) takeWhile_none [of qmark V] by (simp add: qpart_def)
  next
    case False
    then show ?thesis using assms(2) takeWhile_sep [of qmark V Q] by (simp add: qpart_def)
  qed
  have q: "(if qmark \<in> set (V @ qpart Q)
            then tl (dropWhile (\<lambda>x. x \<noteq> qmark) (V @ qpart Q)) else []) = Q"
  proof (cases "Q = []")
    case True
    then show ?thesis using assms(2) by (simp add: qpart_def)
  next
    case False
    then show ?thesis using assms(2) dropWhile_sep [of qmark V Q] by (simp add: qpart_def)
  qed
  show ?thesis unfolding split_rest_def Let_def s4 f u q ..
qed

lemma urlsplit_wf:
  assumes "urlsplit L s = Inr (sch, N, U, Q, F)" and "backslash \<notin> set s"
  shows "sch = [] \<or> scheme_ok sch" and "wf_split (sch, N, U, Q, F)"
    and "check_brackets L N = Inr ()" and "checknetloc L N = Inr ()"
proof -
  let ?s1 = "remove_unsafe (lstrip_c0 s)"
  let ?nd = "\<lambda>c. c \<notin> set netloc_delims"
  obtain sch' s2 where ss: "split_scheme ?s1 = (sch', s2)" by (cases "split_scheme ?s1")
  have c1: "clean ?s1" using assms(2) by (rule clean_input)
  have sub2: "set s2 \<subseteq> set ?s1" using split_scheme_cases [OF ss] by auto
  have c2: "clean s2" using c1 sub2 by (rule clean_subset)
  have sok: "sch' = [] \<or> scheme_ok sch'" using split_scheme_cases [OF ss] by auto
  have "(sch = [] \<or> scheme_ok sch) \<and> wf_split (sch, N, U, Q, F) \<and>
     check_brackets L N = Inr () \<and> checknetloc L N = Inr ()"
  proof (cases "take 2 s2 = ''//''")
    case True
    let ?N = "takeWhile ?nd (drop 2 s2)"
    let ?s3 = "dropWhile ?nd (drop 2 s2)"
    have e: "sch = sch' \<and> N = ?N \<and> check_brackets L ?N = Inr () \<and> checknetloc L ?N = Inr () \<and>
        split_rest ?s3 = (U, Q, F)"
      using assms(1) unfolding urlsplit_eq ss
      by (simp add: True split: sum.splits prod.splits)
    have nd: "no_delims N"
      using e unfolding no_delims_def by (auto dest: set_takeWhileD)
    have h3: "?s3 = [] \<or> hd ?s3 \<in> set netloc_delims"
      using hd_dropWhile [of ?nd "drop 2 s2"] by auto
    have sub3: "set ?s3 \<subseteq> set s2" by (auto dest: set_dropWhileD in_set_dropD)
    have subN: "set N \<subseteq> set s2" using e by (auto dest: set_takeWhileD in_set_dropD)
    have r: "split_rest ?s3 = (U, Q, F)" using e by simp
    have "clean N" "clean U" "clean Q" "clean F"
      using c2 subN sub3 split_rest_props(4,5,6) [OF r] by (blast intro: clean_subset)+
    moreover have "U = [] \<or> hd U = slash" using split_rest_props(7) [OF r h3] .
    ultimately have "wf_split (sch, N, U, Q, F)"
      using nd split_rest_props(1,2,3) [OF r] unfolding wf_split_def by simp
    then show ?thesis using e sok by simp
  next
    case False
    have e: "sch = sch' \<and> N = [] \<and> split_rest s2 = (U, Q, F)"
      using assms(1) unfolding urlsplit_eq ss
      by (simp add: False split: sum.splits prod.splits)
    have r: "split_rest s2 = (U, Q, F)" using e by simp
    have "clean U" "clean Q" "clean F"
      using c2 split_rest_props(4,5,6) [OF r] by (blast intro: clean_subset)+
    then have "wf_split (sch, N, U, Q, F)"
      using e split_rest_props(1,2,3) [OF r] unfolding wf_split_def no_delims_def clean_def
      by simp
    then show ?thesis using e sok by simp
  qed
  then show "sch = [] \<or> scheme_ok sch" and "wf_split (sch, N, U, Q, F)"
    and "check_brackets L N = Inr ()" and "checknetloc L N = Inr ()"
    by simp_all
qed

lemma split_netloc_join:
  assumes "no_delims N" and "t = [] \<or> hd t \<in> set netloc_delims"
  shows "takeWhile (\<lambda>c. c \<notin> set netloc_delims) (N @ t) = N"
    and "dropWhile (\<lambda>c. c \<notin> set netloc_delims) (N @ t) = t"
proof -
  have n: "\<And>x. x \<in> set N \<Longrightarrow> x \<notin> set netloc_delims"
    using assms(1) unfolding no_delims_def by auto
  have t: "takeWhile (\<lambda>c. c \<notin> set netloc_delims) t = []"
    using assms(2) by (cases t) auto
  have d: "dropWhile (\<lambda>c. c \<notin> set netloc_delims) t = t"
    using assms(2) by (cases t) auto
  show "takeWhile (\<lambda>c. c \<notin> set netloc_delims) (N @ t) = N"
    using n t by (simp add: takeWhile_append2)
  show "dropWhile (\<lambda>c. c \<notin> set netloc_delims) (N @ t) = t"
    using n d by (simp add: dropWhile_append2)
qed

lemma clean_parts:
  assumes "clean N" and "clean V" and "clean Q" and "clean F"
  shows "clean (colon # url_body L sch N V @ qpart Q @ fpart F)"
  using assms unfolding clean_def url_body_def qpart_def fpart_def
  by (auto simp: chars unsafe_url_bytes_def)

lemma tail_delim:
  assumes "V = [] \<or> hd V = slash"
  shows "V @ qpart Q @ fpart F = [] \<or> hd (V @ qpart Q @ fpart F) \<in> set netloc_delims"
  using assms by (cases V) (auto simp: qpart_def fpart_def netloc_delims_def chars)

lemma tail_no_slash: "qpart Q @ fpart F = [] \<or> hd (qpart Q @ fpart F) \<noteq> CHR ''/''"
  by (auto simp: qpart_def fpart_def chars)

lemma writes_netloc_netloc: "N \<noteq> [] \<Longrightarrow> writes_netloc L sch N V"
  by (simp add: writes_netloc_def split: cpython.split)

lemma url_body_netloc:
  assumes "N \<noteq> []" and "V = [] \<or> hd V = slash"
  shows "url_body L sch N V = ''//'' @ N @ V"
proof -
  have "(if V \<noteq> [] \<and> take 1 V \<noteq> ''/'' then ''/'' @ V else V) = V"
    using assms(2) by (cases V) (auto simp: chars)
  then show ?thesis using writes_netloc_netloc [OF assms(1)] unfolding url_body_def by simp
qed

lemma urlsplit_join:
  assumes "scheme_ok sch" and "wf_split (sch, N, V, Q, F)" and "N \<noteq> []"
  shows "urlsplit L (urlunsplit L (sch, N, V, Q, F)) =
     (case check_brackets L N of
        Inl e \<Rightarrow> Inl e
      | Inr _ \<Rightarrow> (case checknetloc L N of Inl e \<Rightarrow> Inl e | Inr _ \<Rightarrow> Inr (sch, N, V, Q, F)))"
proof -
  let ?t = "V @ qpart Q @ fpart F"
  let ?rest = "url_body L sch N V @ qpart Q @ fpart F"
  have wf: "no_delims N" "hash \<notin> set V" "qmark \<notin> set V" "hash \<notin> set Q"
      "N \<noteq> [] \<longrightarrow> V = [] \<or> hd V = slash" "clean N" "clean V" "clean Q" "clean F"
    using assms(2) unfolding wf_split_def by simp_all
  have ne: "sch \<noteq> []" using assms(1) by (simp add: scheme_ok_def)
  have x: "urlunsplit L (sch, N, V, Q, F) = sch @ colon # ?rest"
    using ne by (simp add: urlunsplit_parts)
  have "clean (colon # ?rest)" using wf by (intro clean_parts)
  then have cl: "remove_unsafe (lstrip_c0 (sch @ colon # ?rest)) = sch @ colon # ?rest"
    using assms(1) by (rule clean_unchanged [rotated])
  have ss: "split_scheme (sch @ colon # ?rest) = (sch, ?rest)"
    using assms(1) by (rule split_scheme_join)
  have sr: "split_rest ?t = (V, Q, F)" using wf(2,3,4) by (rule split_rest_join)
  have v: "V = [] \<or> hd V = slash" using wf(5) assms(3) by simp
  have b: "url_body L sch N V = ''//'' @ N @ V" using assms(3) v by (rule url_body_netloc)
  have td: "?t = [] \<or> hd ?t \<in> set netloc_delims" using v by (rule tail_delim)
  show ?thesis
    using sr split_netloc_join [OF wf(1) td]
    apply (simp only: x urlsplit_eq cl ss)
    apply (simp add: b split: sum.splits)
    done
qed

lemma clean_urlunsplit:
  assumes "clean sch" and "clean N" and "clean V" and "clean Q" and "clean F"
  shows "clean (urlunsplit L (sch, N, V, Q, F))"
proof -
  have "clean (colon # url_body L sch N V @ qpart Q @ fpart F)"
    using assms(2-5) by (rule clean_parts)
  then show ?thesis
    using assms(1) unfolding urlunsplit_parts clean_def by auto
qed

section \<open>The parameters of a path\<close>

lemma lastseg_decomp:
  obtains front where "V = front @ lastseg V" and "front = [] \<or> last front = slash"
proof -
  define dw where "dw = dropWhile (\<lambda>c. c \<noteq> slash) (rev V)"
  have "rev dw @ lastseg V = rev (takeWhile (\<lambda>c. c \<noteq> slash) (rev V) @ dw)"
    unfolding lastseg_def by (simp only: rev_append)
  also have "\<dots> = rev (rev V)" unfolding dw_def by (simp only: takeWhile_dropWhile_id)
  finally have v: "V = rev dw @ lastseg V" by simp
  have "rev dw = [] \<or> last (rev dw) = slash"
  proof (cases "dw = []")
    case True
    then show ?thesis by simp
  next
    case False
    then have "hd dw = slash"
      unfolding dw_def using hd_dropWhile [of "\<lambda>c. c \<noteq> slash" "rev V"] by blast
    then show ?thesis using False by (simp add: last_rev)
  qed
  then show ?thesis using v that by blast
qed

lemma lastseg_no_slash: "slash \<notin> set (lastseg V)"
  unfolding lastseg_def by (auto dest: set_takeWhileD)

lemma lastseg_id: "slash \<notin> set b \<Longrightarrow> lastseg b = b"
  unfolding lastseg_def by (simp add: takeWhile_none)

lemma lastseg_after_slash: "lastseg (a @ slash # b) = lastseg b"
proof -
  have "takeWhile (\<lambda>c. c \<noteq> slash) (rev b @ slash # rev a) = takeWhile (\<lambda>c. c \<noteq> slash) (rev b)"
  proof (cases "slash \<in> set (rev b)")
    case True
    then show ?thesis by (simp add: takeWhile_append1)
  next
    case False
    then show ?thesis using takeWhile_sep [of slash "rev b" "rev a"] by (simp add: takeWhile_none)
  qed
  then show ?thesis unfolding lastseg_def by simp
qed

lemma lastseg_append:
  assumes "front = [] \<or> last front = slash" and "slash \<notin> set seg"
  shows "lastseg (front @ seg) = seg"
proof (cases "front = []")
  case True
  then show ?thesis using assms(2) by (simp add: lastseg_id)
next
  case False
  then have "last front = slash" using assms(1) by simp
  then obtain g where "front = g @ [slash]" using False by (metis append_butlast_last_id)
  then have "lastseg (front @ seg) = lastseg (g @ slash # seg)" by simp
  also have "\<dots> = lastseg seg" by (rule lastseg_after_slash)
  finally show ?thesis using assms(2) by (simp add: lastseg_id)
qed

lemma lastseg_collapse: "lastseg (collapse V) = lastseg V"
proof -
  obtain front where v: "V = front @ lastseg V" and f: "front = [] \<or> last front = slash"
    by (rule lastseg_decomp)
  have ns: "slash \<notin> set (lastseg V)" by (rule lastseg_no_slash)
  then have cs: "collapse (lastseg V) = lastseg V"
    using collapse_no_slash [of "lastseg V" "[]"] by simp
  have "lastseg V = [] \<or> hd (lastseg V) \<noteq> CHR ''/''"
    using ns by (cases "lastseg V") (auto simp: chars)
  then have "collapse (front @ lastseg V) = collapse front @ collapse (lastseg V)"
    by (intro collapse_append) simp
  then have c: "collapse V = collapse front @ lastseg V" using v cs by simp
  have "collapse front = [] \<or> last (collapse front) = slash"
    using f last_collapse [of front] by (cases "front = []") simp_all
  then have "lastseg (collapse front @ lastseg V) = lastseg V"
    using ns by (rule lastseg_append)
  then show ?thesis using c by simp
qed

lemma splitparams_eq:
  assumes "semicolon \<in> set U"
  obtains front where "U = front @ lastseg U" and "front = [] \<or> last front = slash"
    and "splitparams U =
     (if semicolon \<in> set (lastseg U)
      then (front @ takeWhile (\<lambda>c. c \<noteq> semicolon) (lastseg U),
            tl (dropWhile (\<lambda>c. c \<noteq> semicolon) (lastseg U)))
      else (U, []))"
proof (cases "slash \<in> set U")
  case True
  define dw where "dw = dropWhile (\<lambda>c. c \<noteq> slash) (rev U)"
  have "rev dw @ lastseg U = rev (takeWhile (\<lambda>c. c \<noteq> slash) (rev U) @ dw)"
    unfolding lastseg_def by (simp only: rev_append)
  also have "\<dots> = rev (rev U)" unfolding dw_def by (simp only: takeWhile_dropWhile_id)
  finally have v: "U = rev dw @ lastseg U" by simp
  have "dw \<noteq> []" unfolding dw_def using True by auto
  then have "hd dw = slash"
    unfolding dw_def using hd_dropWhile [of "\<lambda>c. c \<noteq> slash" "rev U"] by blast
  then have l: "rev dw = [] \<or> last (rev dw) = slash" using \<open>dw \<noteq> []\<close> by (simp add: last_rev)
  have "splitparams U =
     (if semicolon \<in> set (lastseg U)
      then (rev dw @ takeWhile (\<lambda>c. c \<noteq> semicolon) (lastseg U),
            tl (dropWhile (\<lambda>c. c \<noteq> semicolon) (lastseg U)))
      else (U, []))"
    using True by (simp add: splitparams_def lastseg_def Let_def dw_def)
  then show ?thesis using v l that by blast
next
  case False
  then have l: "lastseg U = U" by (rule lastseg_id)
  have "splitparams U =
     (if semicolon \<in> set (lastseg U)
      then ([] @ takeWhile (\<lambda>c. c \<noteq> semicolon) (lastseg U),
            tl (dropWhile (\<lambda>c. c \<noteq> semicolon) (lastseg U)))
      else (U, []))"
    using False assms l by (simp add: splitparams_def split_once_def)
  moreover have "U = [] @ lastseg U" using l by simp
  ultimately show ?thesis using that by blast
qed

lemma semicolon_split:
  assumes "semicolon \<in> set seg"
  shows "seg = takeWhile (\<lambda>c. c \<noteq> semicolon) seg @ semicolon # tl (dropWhile (\<lambda>c. c \<noteq> semicolon) seg)"
proof -
  have ne: "dropWhile (\<lambda>c. c \<noteq> semicolon) seg \<noteq> []" using assms by auto
  then have "hd (dropWhile (\<lambda>c. c \<noteq> semicolon) seg) = semicolon"
    using hd_dropWhile [of "\<lambda>c. c \<noteq> semicolon" seg] by blast
  then have "dropWhile (\<lambda>c. c \<noteq> semicolon) seg = semicolon # tl (dropWhile (\<lambda>c. c \<noteq> semicolon) seg)"
    using ne by (metis list.collapse)
  then show ?thesis by (metis takeWhile_dropWhile_id)
qed

lemma unstable_last:
  assumes "\<not> param_stable U"
  shows "U \<noteq> []" and "last U = semicolon" and "param_stable (butlast U)"
proof -
  let ?tw = "takeWhile (\<lambda>c. c \<noteq> semicolon) (lastseg U)"
  obtain front where v: "U = front @ lastseg U" and f: "front = [] \<or> last front = slash"
    by (rule lastseg_decomp)
  have s: "semicolon \<in> set (lastseg U)" and m: "tl (dropWhile (\<lambda>c. c \<noteq> semicolon) (lastseg U)) = []"
    using assms unfolding param_stable_def by simp_all
  have seg: "lastseg U = ?tw @ [semicolon]" using semicolon_split [OF s] m by simp
  have u: "U = (front @ ?tw) @ [semicolon]" using v seg by (metis append.assoc)
  show "U \<noteq> []" using u by auto
  show "last U = semicolon" using u by (metis last_snoc)
  have b: "butlast U = front @ ?tw" using u by (metis butlast_snoc)
  have tws: "slash \<notin> set ?tw" using lastseg_no_slash [of U] by (auto dest: set_takeWhileD)
  have twc: "semicolon \<notin> set ?tw" by (auto dest: set_takeWhileD)
  have "lastseg (front @ ?tw) = ?tw" using f tws by (rule lastseg_append)
  then show "param_stable (butlast U)" using twc unfolding b param_stable_def by simp
qed

lemma fixp_eq:
  "fixp sch U = (if sch \<in> set uses_params \<and> \<not> param_stable U then butlast U else U)"
proof (cases "sch \<in> set uses_params \<and> semicolon \<in> set U")
  case False
  have "semicolon \<notin> set U \<Longrightarrow> semicolon \<notin> set (lastseg U)"
    unfolding lastseg_def by (auto dest: set_takeWhileD)
  then show ?thesis using False by (auto simp: fixp_def param_stable_def)
next
  case True
  let ?tw = "takeWhile (\<lambda>c. c \<noteq> semicolon) (lastseg U)"
  let ?M = "tl (dropWhile (\<lambda>c. c \<noteq> semicolon) (lastseg U))"
  obtain front where v: "U = front @ lastseg U"
    and sp: "splitparams U = (if semicolon \<in> set (lastseg U) then (front @ ?tw, ?M) else (U, []))"
    using True splitparams_eq [of U] by blast
  show ?thesis
  proof (cases "semicolon \<in> set (lastseg U)")
    case False
    then show ?thesis using True sp by (simp add: fixp_def param_stable_def)
  next
    case s: True
    have seg: "lastseg U = ?tw @ semicolon # ?M" using semicolon_split [OF s] .
    have u: "U = front @ ?tw @ semicolon # ?M" using v seg by metis
    show ?thesis
    proof (cases "?M = []")
      case m: True
      then have "U = (front @ ?tw) @ [semicolon]" using u by simp
      then have "butlast U = front @ ?tw" by (metis butlast_snoc)
      then show ?thesis using m True sp s by (simp add: fixp_def param_stable_def)
    next
      case m: False
      have "fixp sch U = front @ ?tw @ semicolon # ?M"
        using m True sp s by (simp add: fixp_def)
      then show ?thesis using m s u by (simp add: param_stable_def)
    qed
  qed
qed

lemma fixp_stable: "sch \<in> set uses_params \<longrightarrow> param_stable (fixp sch U)"
  unfolding fixp_eq using unstable_last(3) by auto

lemma fixp_fixed: "sch \<in> set uses_params \<longrightarrow> param_stable V \<Longrightarrow> fixp sch V = V"
  unfolding fixp_eq by auto

lemma fixp_subset: "set (fixp sch U) \<subseteq> set U"
  unfolding fixp_eq by (auto dest: in_set_butlastD)

lemma fixp_hd:
  assumes "U = [] \<or> hd U = slash"
  shows "fixp sch U = [] \<or> hd (fixp sch U) = slash"
proof (cases "fixp sch U = U")
  case True
  then show ?thesis using assms by simp
next
  case False
  then have b: "fixp sch U = butlast U" unfolding fixp_eq by (simp split: if_splits)
  show ?thesis
  proof (cases "butlast U = []")
    case True
    then show ?thesis using b by simp
  next
    case False
    then have "U \<noteq> []" by auto
    then show ?thesis using hd_butlast [OF False] assms b by simp
  qed
qed

lemma param_stable_lastseg: "lastseg V2 = lastseg V \<Longrightarrow> param_stable V2 = param_stable V"
  by (simp add: param_stable_def)

section \<open>is_valid_url and normalize_url\<close>

lemma normalize_url_eq:
  "normalize_url L s =
     (case urlsplit L (str_replace [backslash] ''/'' s) of
        Inl e \<Rightarrow> Inl e
      | Inr (sch, N, U, Q, F) \<Rightarrow>
          Inr (collapse (urlunsplit L (if sch = [] then ''https'' else sch, N, fixp sch U, Q, F))))"
proof (cases "urlsplit L (str_replace [backslash] ''/'' s)")
  case (Inl e)
  then show ?thesis by (simp add: normalize_url_def urlparse_def)
next
  case (Inr c)
  obtain sch N U Q F where c: "c = (sch, N, U, Q, F)" by (cases c)
  obtain P M where pm:
    "(if sch \<in> set uses_params \<and> semicolon \<in> set U then splitparams U else (U, [])) = (P, M)"
    by (cases "if sch \<in> set uses_params \<and> semicolon \<in> set U then splitparams U else (U, [])")
  have up: "urlparse L (str_replace [backslash] ''/'' s)
      = Inr \<lparr>scheme = sch, netloc = N, path = P, params = M, query = Q, fragment = F\<rparr>"
    using Inr c pm by (simp add: urlparse_def Let_def)
  have fx: "fixp sch U = (if M \<noteq> [] then P @ semicolon # M else P)"
    using pm by (simp add: fixp_def)
  show ?thesis
    using Inr c up fx
    by (simp add: normalize_url_def urlunparse_def Let_def str_replace_collapse semicolon_def)
qed

lemma normalize_url_parts:
  assumes "normalize_url L s = Inr n"
  obtains sch N U Q F where "urlsplit L (str_replace [backslash] ''/'' s) = Inr (sch, N, U, Q, F)"
    and "sch = [] \<or> scheme_ok sch" and "wf_split (sch, N, U, Q, F)"
    and "check_brackets L N = Inr ()" and "checknetloc L N = Inr ()"
    and "n = collapse (urlunsplit L (if sch = [] then ''https'' else sch, N, fixp sch U, Q, F))"
proof -
  obtain c where c: "urlsplit L (str_replace [backslash] ''/'' s) = Inr c"
    using assms unfolding normalize_url_eq by (auto split: sum.splits)
  obtain sch N U Q F where t: "c = (sch, N, U, Q, F)" by (cases c)
  have u: "urlsplit L (str_replace [backslash] ''/'' s) = Inr (sch, N, U, Q, F)"
    using c t by simp
  have n: "n = collapse (urlunsplit L (if sch = [] then ''https'' else sch, N, fixp sch U, Q, F))"
    using assms u unfolding normalize_url_eq by simp
  show ?thesis
    using that [OF u urlsplit_wf [OF u bsrep_no_backslash] n] .
qed

lemma normalize_url_clean:
  assumes "normalize_url L s = Inr n"
  shows "clean n"
proof -
  obtain sch N U Q F where wf: "sch = [] \<or> scheme_ok sch" "wf_split (sch, N, U, Q, F)"
    and n: "n = collapse (urlunsplit L (if sch = [] then ''https'' else sch, N, fixp sch U, Q, F))"
    using assms by (rule normalize_url_parts)
  have p: "clean N" "clean U" "clean Q" "clean F" using wf(2) unfolding wf_split_def by simp_all
  have "scheme_ok (if sch = [] then ''https'' else sch)" using wf(1) scheme_ok_https by auto
  then have "clean (if sch = [] then ''https'' else sch)" by (rule scheme_ok_no_delim(3))
  moreover have "clean (fixp sch U)" using p(2) fixp_subset by (rule clean_subset)
  ultimately have "clean (urlunsplit L (if sch = [] then ''https'' else sch, N, fixp sch U, Q, F))"
    using p by (intro clean_urlunsplit)
  then show ?thesis unfolding n using set_collapse by (rule clean_subset)
qed


text \<open>
  Claim C7. \<^verbatim>\<open>is_valid_url(url)\<close> returns true exactly when \<^verbatim>\<open>urlparse(url)\<close> yields a
  scheme and a network location that are both non-empty. It is a function of the URL
  alone. \<^verbatim>\<open>"http://api.example.com"\<close> is valid; \<^verbatim>\<open>"api.example.com"\<close> and
  \<^verbatim>\<open>"not a url"\<close> are not.
\<close>

theorem is_valid_url_iff:
  "(is_valid_url L s = Inr True
      \<longleftrightarrow> (\<exists>p. urlparse L s = Inr p \<and> scheme p \<noteq> [] \<and> netloc p \<noteq> [])) \<and>
   is_valid_url L ''http://api.example.com'' = Inr True \<and>
   is_valid_url L ''api.example.com'' = Inr False \<and>
   is_valid_url L ''not a url'' = Inr False"
proof (intro conjI)
  show "is_valid_url L s = Inr True
      \<longleftrightarrow> (\<exists>p. urlparse L s = Inr p \<and> scheme p \<noteq> [] \<and> netloc p \<noteq> [])"
    by (auto simp: is_valid_url_def split: sum.splits)
  show "is_valid_url L ''http://api.example.com'' = Inr True" by code_simp
  show "is_valid_url L ''api.example.com'' = Inr False" by code_simp
  show "is_valid_url L ''not a url'' = Inr False" by code_simp
qed

theorem is_valid_url_iff_witness:
  "urlparse ascii_lib_3_11 ''http://api.example.com''
     = Inr \<lparr>scheme = ''http'', netloc = ''api.example.com'', path = [], params = [],
             query = [], fragment = []\<rparr> \<and>
   is_valid_url ascii_lib_3_11 ''http://api.example.com'' = Inr True \<and>
   is_valid_url ascii_lib_3_11 ''api.example.com'' = Inr False \<and>
   is_valid_url ascii_lib_3_11 ''not a url'' = Inr False"
proof -
  have p: "urlparse ascii_lib_3_11 ''http://api.example.com''
     = Inr \<lparr>scheme = ''http'', netloc = ''api.example.com'', path = [], params = [],
             query = [], fragment = []\<rparr>"
    by code_simp
  show ?thesis
    using p is_valid_url_iff [of ascii_lib_3_11 "''http://api.example.com''"] by simp
qed










text \<open>
  Claim C8, as the code has it. The URL \<^verbatim>\<open>normalize_url\<close> returns is the reassembled
  URL \<open>r\<close> after \<^verbatim>\<open>r.replace("///", "//")\<close>: one pass from the left over occurrences of
  \<^verbatim>\<open>///\<close> that do not overlap. A \<^verbatim>\<open>///\<close> of \<open>r\<close> that does not follow a slash becomes
  \<^verbatim>\<open>//\<close>, with the text before and behind it treated alike. A URL reassembled as
  \<^verbatim>\<open>scheme:///host\<close> becomes \<^verbatim>\<open>scheme://host\<close>. No \<^verbatim>\<open>///\<close> is left when \<open>r\<close> has no four
  slashes in a row.
\<close>

theorem normalize_url_collapses:
  assumes "urlparse L (str_replace [backslash] ''/'' s) = Inr p"
    and "r = urlunparse L (if scheme p = [] then p\<lparr>scheme := ''https''\<rparr> else p)"
  shows "normalize_url L s = Inr (str_replace ''///'' ''//'' r) \<and>
     (\<forall>a b. r = a @ ''///'' @ b \<and> (a = [] \<or> last a \<noteq> slash) \<longrightarrow>
        normalize_url L s
          = Inr (str_replace ''///'' ''//'' a @ ''//'' @ str_replace ''///'' ''//'' b)) \<and>
     (\<forall>sch h. r = sch @ '':///'' @ h \<and> slash \<notin> set sch \<and> (h = [] \<or> hd h \<noteq> slash) \<and>
         \<not> str_contains ''///'' h \<longrightarrow>
        normalize_url L s = Inr (sch @ ''://'' @ h)) \<and>
     (\<not> str_contains ''////'' r \<longrightarrow>
        (\<forall>n. normalize_url L s = Inr n \<longrightarrow> \<not> str_contains ''///'' n))"
proof -
  have n: "normalize_url L s = Inr (collapse r)"
    using assms by (simp add: normalize_url_def Let_def str_replace_collapse)
  have 1: "collapse (a @ ''///'' @ b) = collapse a @ ''//'' @ collapse b"
    if "a = [] \<or> last a \<noteq> slash" for a b
  proof -
    have "collapse (a @ (''///'' @ b)) = collapse a @ collapse (''///'' @ b)"
      using that by (intro collapse_append) (simp add: chars)
    then show ?thesis by simp
  qed
  have 2: "collapse (sch @ '':///'' @ h) = sch @ ''://'' @ h"
    if "slash \<notin> set sch" and "h = [] \<or> hd h \<noteq> slash" and "\<not> str_contains ''///'' h" for sch h
  proof -
    have "collapse (sch @ ('':///'' @ h)) = sch @ collapse ('':///'' @ h)"
      using that(1) by (rule collapse_no_slash)
    also have "collapse ('':///'' @ h) = ''://'' @ collapse h" by simp
    also have "collapse h = h" using that(3) by (rule collapse_fixed)
    finally show ?thesis by simp
  qed
  show ?thesis
    unfolding str_replace_collapse using n 1 2 collapse_no_four [of r] by auto
qed

theorem normalize_url_collapses_witness:
  "urlparse ascii_lib_3_11 (str_replace [backslash] ''/'' ''api.example.com'')
     = Inr \<lparr>scheme = [], netloc = [], path = ''api.example.com'', params = [], query = [],
             fragment = []\<rparr> \<and>
   urlunparse ascii_lib_3_11 \<lparr>scheme = ''https'', netloc = [], path = ''api.example.com'', params = [],
               query = [], fragment = []\<rparr> = ''https'' @ '':///'' @ ''api.example.com'' \<and>
   normalize_url ascii_lib_3_11 ''api.example.com'' = Inr (''https'' @ ''://'' @ ''api.example.com'')"
proof -
  let ?p = "\<lparr>scheme = [], netloc = [], path = ''api.example.com'', params = [], query = [],
             fragment = []\<rparr>"
  have p: "urlparse ascii_lib_3_11 (str_replace [backslash] ''/'' ''api.example.com'') = Inr ?p"
    by code_simp
  have r: "urlunparse ascii_lib_3_11 \<lparr>scheme = ''https'', netloc = [], path = ''api.example.com'', params = [],
               query = [], fragment = []\<rparr> = ''https'' @ '':///'' @ ''api.example.com''"
    by code_simp
  have r': "''https'' @ '':///'' @ ''api.example.com''
      = urlunparse ascii_lib_3_11 (if scheme ?p = [] then ?p\<lparr>scheme := ''https''\<rparr> else ?p)"
    using r by simp
  have h: "slash \<notin> set ''https'' \<and> (''api.example.com'' = [] \<or> hd ''api.example.com'' \<noteq> slash) \<and>
      \<not> str_contains ''///'' ''api.example.com''"
    by code_simp
  have "normalize_url ascii_lib_3_11 ''api.example.com'' = Inr (''https'' @ ''://'' @ ''api.example.com'')"
    using normalize_url_collapses [OF p r'] h by blast
  then show ?thesis using p r by blast
qed

text \<open>
  Not every \<^verbatim>\<open>///\<close> of the reassembled URL is collapsed, in either release: of four
  slashes in a row the pass replaces the first three and goes on behind them, so three
  slashes are left in the URL returned.
\<close>

theorem normalize_url_leaves_triple_slash:
  "urlparse ascii_lib_3_11 ''http://h/a////b''
     = Inr \<lparr>scheme = ''http'', netloc = ''h'', path = ''/a////b'', params = [], query = [],
             fragment = []\<rparr> \<and>
   urlparse ascii_lib_3_12 ''http://h/a////b''
     = Inr \<lparr>scheme = ''http'', netloc = ''h'', path = ''/a////b'', params = [], query = [],
             fragment = []\<rparr> \<and>
   urlunparse ascii_lib_3_11
     \<lparr>scheme = ''http'', netloc = ''h'', path = ''/a////b'', params = [], query = [],
      fragment = []\<rparr> = ''http://h/a////b'' \<and>
   urlunparse ascii_lib_3_12
     \<lparr>scheme = ''http'', netloc = ''h'', path = ''/a////b'', params = [], query = [],
      fragment = []\<rparr> = ''http://h/a////b'' \<and>
   normalize_url ascii_lib_3_11 ''http://h/a////b'' = Inr ''http://h/a///b'' \<and>
   normalize_url ascii_lib_3_12 ''http://h/a////b'' = Inr ''http://h/a///b'' \<and>
   str_contains ''///'' ''http://h/a///b''"
  by code_simp

section \<open>Normalising twice\<close>

lemma collapse_qpart: "collapse (qpart Q) = qpart (collapse Q)"
  by (cases "Q = []") (simp_all add: qpart_def chars)

lemma collapse_fpart: "collapse (fpart F) = fpart (collapse F)"
  by (cases "F = []") (simp_all add: fpart_def chars)

lemma collapse_urlunsplit:
  assumes "scheme_ok sch"
  shows "collapse (urlunsplit L (sch, N, V, Q, F)) =
     sch @ colon # collapse (url_body L sch N V) @ qpart (collapse Q) @ fpart (collapse F)"
proof -
  have ne: "sch \<noteq> []" using assms by (simp add: scheme_ok_def)
  have ns: "slash \<notin> set sch" using assms by (rule scheme_ok_no_delim(1))
  let ?b = "url_body L sch N V"
  have "fpart F = [] \<or> hd (fpart F) \<noteq> CHR ''/''" by (auto simp: fpart_def chars)
  then have "collapse (qpart Q @ fpart F) = collapse (qpart Q) @ collapse (fpart F)"
    by (intro collapse_append) simp
  then have t: "collapse (qpart Q @ fpart F) = qpart (collapse Q) @ fpart (collapse F)"
    by (simp add: collapse_qpart collapse_fpart)
  have "collapse (?b @ (qpart Q @ fpart F)) = collapse ?b @ collapse (qpart Q @ fpart F)"
    using tail_no_slash [of Q F] by (intro collapse_append) simp
  then have b: "collapse (?b @ qpart Q @ fpart F)
      = collapse ?b @ qpart (collapse Q) @ fpart (collapse F)"
    using t by simp
  have "collapse (sch @ (colon # ?b @ qpart Q @ fpart F))
      = sch @ collapse (colon # ?b @ qpart Q @ fpart F)"
    using ns by (rule collapse_no_slash)
  also have "collapse (colon # ?b @ qpart Q @ fpart F) = colon # collapse (?b @ qpart Q @ fpart F)"
    by (simp add: chars)
  finally show ?thesis using ne b by (simp add: urlunsplit_parts)
qed

lemma body_collapse:
  assumes "no_delims N" and "N \<noteq> []" and "V = [] \<or> hd V = slash"
  shows "collapse (url_body L sch N V) = url_body L sch N (collapse V)"
    and "collapse V = [] \<or> hd (collapse V) = slash"
proof -
  show v2: "collapse V = [] \<or> hd (collapse V) = slash"
  proof (cases "V = []")
    case True
    then show ?thesis by simp
  next
    case False
    then show ?thesis using assms(3) hd_collapse [OF False] by simp
  qed
  have b: "url_body L sch N V = ''//'' @ N @ V" using assms(2,3) by (rule url_body_netloc)
  have sn: "slash \<notin> set N"
    using assms(1) unfolding no_delims_def netloc_delims_def by (auto simp: chars)
  then have "hd (N @ V) \<noteq> CHR ''/''" using assms(2) by (cases N) (auto simp: chars)
  then have "collapse (''//'' @ (N @ V)) = collapse ''//'' @ collapse (N @ V)"
    by (intro collapse_append) simp
  also have "collapse (N @ V) = N @ collapse V"
    using sn by (rule collapse_no_slash)
  finally have c: "collapse (url_body L sch N V) = ''//'' @ N @ collapse V"
    unfolding b by simp
  have "url_body L sch N (collapse V) = ''//'' @ N @ collapse V"
    using assms(2) v2 by (rule url_body_netloc)
  then show "collapse (url_body L sch N V) = url_body L sch N (collapse V)"
    using c by simp
qed

lemma second_pass:
  assumes sok: "scheme_ok sch" and wf: "wf_split (sch, N, V, Q, F)"
    and st: "sch \<in> set uses_params \<longrightarrow> param_stable V"
    and n: "n = collapse (urlunsplit L (sch, N, V, Q, F))"
    and nn: "N \<noteq> []"
  shows "n = urlunsplit L (sch, N, collapse V, collapse Q, collapse F)"
    and "wf_split (sch, N, collapse V, collapse Q, collapse F)"
    and "sch \<in> set uses_params \<longrightarrow> param_stable (collapse V)"
proof -
  have w: "no_delims N" "hash \<notin> set V" "qmark \<notin> set V" "hash \<notin> set Q"
      "N \<noteq> [] \<longrightarrow> V = [] \<or> hd V = slash" "clean N" "clean V" "clean Q" "clean F"
    using wf unfolding wf_split_def by simp_all
  have ne: "sch \<noteq> []" using sok by (simp add: scheme_ok_def)
  have v: "V = [] \<or> hd V = slash" using w(5) nn by simp
  have b: "collapse (url_body L sch N V) = url_body L sch N (collapse V)"
    and v2: "collapse V = [] \<or> hd (collapse V) = slash"
    using body_collapse [OF w(1) nn v] by simp_all
  show "n = urlunsplit L (sch, N, collapse V, collapse Q, collapse F)"
    unfolding n collapse_urlunsplit [OF sok] b using ne by (simp add: urlunsplit_parts)
  have "hash \<notin> set (collapse Q)" using w(4) set_collapse [of Q] by auto
  moreover have "clean (collapse V)" using w(7) set_collapse by (rule clean_subset)
  moreover have "clean (collapse Q)" using w(8) set_collapse by (rule clean_subset)
  moreover have "clean (collapse F)" using w(9) set_collapse by (rule clean_subset)
  moreover have "hash \<notin> set (collapse V)" "qmark \<notin> set (collapse V)"
    using w(2,3) set_collapse [of V] by auto
  ultimately show "wf_split (sch, N, collapse V, collapse Q, collapse F)"
    using w(1,6) v2 unfolding wf_split_def by simp
  show "sch \<in> set uses_params \<longrightarrow> param_stable (collapse V)"
    using st param_stable_lastseg [OF lastseg_collapse] by simp
qed

lemma normalize_url_again:
  assumes "normalize_url L s = Inr n"
    and "urlsplit L (str_replace [backslash] ''/'' s) = Inr (sch, N, U, Q, F)"
    and "sch \<noteq> []" and "N \<noteq> []"
  shows "normalize_url L n = Inr (collapse n)"
proof -
  have u: "urlsplit L (str_replace [backslash] ''/'' s) = Inr (sch, N, U, Q, F)"
    using assms(2) .
  have w0: "sch = [] \<or> scheme_ok sch" "wf_split (sch, N, U, Q, F)"
      "check_brackets L N = Inr ()" "checknetloc L N = Inr ()"
    using urlsplit_wf [OF u bsrep_no_backslash] by blast+
  have sok: "scheme_ok sch" using w0(1) assms(3) by simp
  have n: "n = collapse (urlunsplit L (sch, N, fixp sch U, Q, F))"
    using assms(1,3) u unfolding normalize_url_eq by simp
  have w: "no_delims N" "hash \<notin> set U" "qmark \<notin> set U" "hash \<notin> set Q"
      "N \<noteq> [] \<longrightarrow> U = [] \<or> hd U = slash" "clean N" "clean U" "clean Q" "clean F"
    using w0(2) unfolding wf_split_def by simp_all
  have "clean (fixp sch U)" using w(7) fixp_subset by (rule clean_subset)
  moreover have "hash \<notin> set (fixp sch U)" "qmark \<notin> set (fixp sch U)"
    using w(2,3) fixp_subset [of sch U] by auto
  moreover have "N \<noteq> [] \<longrightarrow> fixp sch U = [] \<or> hd (fixp sch U) = slash"
    using w(5) fixp_hd [of U sch] by blast
  ultimately have wf: "wf_split (sch, N, fixp sch U, Q, F)"
    using w unfolding wf_split_def by simp
  let ?V2 = "collapse (fixp sch U)"
  have e: "n = urlunsplit L (sch, N, ?V2, collapse Q, collapse F)"
    and wf2: "wf_split (sch, N, ?V2, collapse Q, collapse F)"
    and st2: "sch \<in> set uses_params \<longrightarrow> param_stable ?V2"
    using second_pass [OF sok wf fixp_stable n assms(4)] by simp_all
  have "clean n" using assms(1) by (rule normalize_url_clean)
  then have id: "str_replace [backslash] ''/'' n = n"
    using clean_no_backslash bsrep_id by blast
  have "urlsplit L n =
     (case check_brackets L N of
        Inl e \<Rightarrow> Inl e
      | Inr _ \<Rightarrow> (case checknetloc L N of
                    Inl e \<Rightarrow> Inl e
                  | Inr _ \<Rightarrow> Inr (sch, N, ?V2, collapse Q, collapse F)))"
    unfolding e using sok wf2 assms(4) by (rule urlsplit_join)
  then have j: "urlsplit L n = Inr (sch, N, ?V2, collapse Q, collapse F)"
    using w0(3,4) by simp
  have fx: "fixp sch ?V2 = ?V2" using st2 by (rule fixp_fixed)
  have "normalize_url L n = Inr (collapse (urlunsplit L (sch, N, ?V2, collapse Q, collapse F)))"
    using j assms(3) fx id by (simp add: normalize_url_eq)
  then show ?thesis using e by simp
qed

text \<open>
  Claim C4, as the code has it. Let \<^verbatim>\<open>normalize_url\<close> return \<open>n\<close> on a URL in which
  the parser, once the backslashes are replaced, finds a scheme and a network location:
  for a URL without a backslash, a URL \<^verbatim>\<open>is_valid_url\<close> accepts. Then
  \<^verbatim>\<open>normalize_url(n)\<close> returns \<open>n\<close> with \<^verbatim>\<open>///\<close> replaced by \<^verbatim>\<open>//\<close> once more, so
  normalising again changes nothing exactly when \<open>n\<close> holds no \<^verbatim>\<open>///\<close>. This holds in
  both releases and whatever the library answers.
\<close>

theorem normalize_url_twice:
  assumes "normalize_url L s = Inr n"
    and "urlparse L (str_replace [backslash] ''/'' s) = Inr p"
    and "scheme p \<noteq> []" and "netloc p \<noteq> []"
  shows "normalize_url L n = Inr (str_replace ''///'' ''//'' n) \<and>
         (normalize_url L n = Inr n \<longleftrightarrow> \<not> str_contains ''///'' n)"
proof -
  obtain c where c: "urlsplit L (str_replace [backslash] ''/'' s) = Inr c"
    using assms(2) unfolding urlparse_def by (auto split: sum.splits)
  obtain sch N U Q F where t: "c = (sch, N, U, Q, F)" by (cases c)
  have u: "urlsplit L (str_replace [backslash] ''/'' s) = Inr (sch, N, U, Q, F)"
    using c t by simp
  have sp: "scheme p = sch" and np: "netloc p = N"
    using assms(2) u unfolding urlparse_def by (auto simp: Let_def split: prod.splits)
  have ne: "sch \<noteq> []" using assms(3) sp by simp
  have nn: "N \<noteq> []" using assms(4) np by simp
  have a: "normalize_url L n = Inr (collapse n)"
    using assms(1) u ne nn by (rule normalize_url_again)
  have f: "collapse n = n \<longleftrightarrow> \<not> str_contains ''///'' n" by (rule collapse_fixed_iff)
  show ?thesis
    unfolding str_replace_collapse using a f by auto
qed

theorem normalize_url_twice_witness:
  "normalize_url ascii_lib_3_12 ''http://host///a'' = Inr ''http://host//a'' \<and>
   urlparse ascii_lib_3_12 (str_replace [backslash] ''/'' ''http://host///a'')
     = Inr \<lparr>scheme = ''http'', netloc = ''host'', path = ''///a'', params = [], query = [],
             fragment = []\<rparr> \<and>
   \<not> str_contains ''///'' ''http://host//a'' \<and>
   normalize_url ascii_lib_3_12 ''http://host//a'' = Inr ''http://host//a''"
proof -
  let ?p = "\<lparr>scheme = ''http'', netloc = ''host'', path = ''///a'', params = [], query = [],
             fragment = []\<rparr>"
  have n: "normalize_url ascii_lib_3_12 ''http://host///a'' = Inr ''http://host//a''"
    by code_simp
  have p: "urlparse ascii_lib_3_12 (str_replace [backslash] ''/'' ''http://host///a'') = Inr ?p"
    by code_simp
  have s: "scheme ?p \<noteq> []" by simp
  have c: "\<not> str_contains ''///'' ''http://host//a''" by code_simp
  have nl: "netloc ?p \<noteq> []" by simp
  have "normalize_url ascii_lib_3_12 ''http://host//a'' = Inr ''http://host//a''"
    using normalize_url_twice [OF n p s nl] c by blast
  then show ?thesis using n p c by blast
qed

text \<open>
  Idempotence for every URL with an explicit scheme fails, in either release. Four
  slashes in a row lose one slash in each pass: \<^verbatim>\<open>http://host////a\<close>, which
  \<^verbatim>\<open>is_valid_url\<close> accepts, gives \<^verbatim>\<open>http://host///a\<close> and then \<^verbatim>\<open>http://host//a\<close>. And
  \<^verbatim>\<open>http:[\<close> gives \<^verbatim>\<open>http://[\<close>, on which the second pass raises \<^verbatim>\<open>ValueError\<close>.
\<close>

theorem normalize_url_not_idempotent:
  "is_valid_url ascii_lib_3_11 ''http://host////a'' = Inr True \<and>
   normalize_url ascii_lib_3_11 ''http://host////a'' = Inr ''http://host///a'' \<and>
   normalize_url ascii_lib_3_11 ''http://host///a'' = Inr ''http://host//a'' \<and>
   normalize_url ascii_lib_3_11 ''http:['' = Inr ''http://['' \<and>
   normalize_url ascii_lib_3_11 ''http://['' = Inl ValueError \<and>
   is_valid_url ascii_lib_3_12 ''http://host////a'' = Inr True \<and>
   normalize_url ascii_lib_3_12 ''http://host////a'' = Inr ''http://host///a'' \<and>
   normalize_url ascii_lib_3_12 ''http://host///a'' = Inr ''http://host//a'' \<and>
   normalize_url ascii_lib_3_12 ''http:['' = Inr ''http://['' \<and>
   normalize_url ascii_lib_3_12 ''http://['' = Inl ValueError"
  by code_simp

section \<open>chat_completion\<close>





lemma chat_completion_sent:
  "normalize_url L chat_url = Inr u \<Longrightarrow>
   snd (chat_completion L srv api_key chat_url messages model tmo options sent) =
     sent @ [\<lparr>http_method = POST, http_request.url = u, headers = chat_headers api_key,
              data = Some (chat_payload model messages options),
              timeout = (if tmo \<le> 0 then None else Some tmo)\<rparr>]"
  by (simp add: chat_completion_def send_def Let_def split: sum.splits)

lemma chat_completion_not_sent:
  "normalize_url L chat_url = Inl e \<Longrightarrow>
   chat_completion L srv api_key chat_url messages model tmo options sent = (Inl e, sent)"
  by (simp add: chat_completion_def)

lemma chat_completion_result:
  "normalize_url L chat_url = Inr u \<Longrightarrow>
   srv \<lparr>http_method = POST, http_request.url = u, headers = chat_headers api_key,
        data = Some (chat_payload model messages options),
        timeout = (if tmo \<le> 0 then None else Some tmo)\<rparr> = Inr r \<Longrightarrow>
   fst (chat_completion L srv api_key chat_url messages model tmo options sent) =
     (if status_code r \<noteq> 200 then Inl (Exception (response_text r)) else json r)"
  by (simp add: chat_completion_def send_def Let_def)

lemma valid_models_result:
  "normalize_url L (os_path_join base_url ''v1/models'') = Inr u \<Longrightarrow>
   srv \<lparr>http_method = GET, http_request.url = u, headers = models_headers api_key,
        data = None, timeout = None\<rparr> = Inr r \<Longrightarrow>
   fst (valid_models L srv api_key base_url gpt_only sent) =
     (if status_code r = 200 then models_of_body (json r) gpt_only
      else Inl (Exception (response_text r)))"
  by (simp add: valid_models_def send_def Let_def)



text \<open>
  Claim C6. With a timeout of zero or less the transport is called with no timeout
  (\<^verbatim>\<open>None\<close>); a positive timeout is handed over as it is. One request is sent when the
  URL can be normalised and none when \<^verbatim>\<open>normalize_url\<close> raises.
\<close>

theorem chat_completion_timeout:
  "(\<forall>e. normalize_url L chat_url = Inl e \<longrightarrow>
       snd (chat_completion L srv api_key chat_url messages model tmo options sent) = sent) \<and>
   (\<forall>u. normalize_url L chat_url = Inr u \<longrightarrow>
       (\<exists>req. snd (chat_completion L srv api_key chat_url messages model tmo options sent)
                = sent @ [req] \<and>
              http_method req = POST \<and>
              timeout req = (if tmo \<le> 0 then None else Some tmo)))"
  using chat_completion_sent [of L chat_url _ srv api_key messages model tmo options sent]
  by (auto simp: chat_completion_not_sent)

theorem chat_completion_timeout_witness:
  "(\<exists>req. snd (chat_completion ascii_lib_3_11 (\<lambda>req. Inl (TransportError [])) ''key''
        ''api.example.com'' [] ''gpt-4'' 0 no_options []) = [req] \<and> timeout req = None) \<and>
   (\<exists>req. snd (chat_completion ascii_lib_3_11 (\<lambda>req. Inl (TransportError [])) ''key''
        ''api.example.com'' [] ''gpt-4'' (- 3) no_options []) = [req] \<and> timeout req = None) \<and>
   (\<exists>req. snd (chat_completion ascii_lib_3_11 (\<lambda>req. Inl (TransportError [])) ''key''
        ''api.example.com'' [] ''gpt-4'' 30 no_options []) = [req] \<and> timeout req = Some 30)"
proof -
  have n: "normalize_url ascii_lib_3_11 ''api.example.com'' = Inr ''https://api.example.com''"
    by code_simp
  show ?thesis
    using n
      chat_completion_timeout [of ascii_lib_3_11 "''api.example.com''" "\<lambda>req. Inl (TransportError [])"
        "''key''" "[]" "''gpt-4''" 0 no_options "[]"]
      chat_completion_timeout [of ascii_lib_3_11 "''api.example.com''" "\<lambda>req. Inl (TransportError [])"
        "''key''" "[]" "''gpt-4''" "- 3" no_options "[]"]
      chat_completion_timeout [of ascii_lib_3_11 "''api.example.com''" "\<lambda>req. Inl (TransportError [])"
        "''key''" "[]" "''gpt-4''" 30 no_options "[]"]
    by auto
qed

text \<open>
  Claim C3. Given the response the transport returns, \<^verbatim>\<open>chat_completion\<close> returns a
  value only for status 200, and then it is what \<^verbatim>\<open>response.json()\<close> gives (the parsed
  body, or the exception of the decoder when the body is not JSON). For every other
  status, \<^verbatim>\<open>chat_completion\<close> and \<^verbatim>\<open>valid_models\<close> raise \<^verbatim>\<open>Exception\<close> with exactly the
  text of the response, and return nothing.
\<close>

theorem status_decides_result:
  assumes "normalize_url L chat_url = Inr u"
    and "srv \<lparr>http_method = POST, http_request.url = u, headers = chat_headers api_key,
              data = Some (chat_payload model messages options),
              timeout = (if tmo \<le> 0 then None else Some tmo)\<rparr> = Inr r"
    and "normalize_url L (os_path_join base_url ''v1/models'') = Inr mu"
    and "srv \<lparr>http_method = GET, http_request.url = mu, headers = models_headers api_key,
              data = None, timeout = None\<rparr> = Inr mr"
  shows "(status_code r = 200 \<longrightarrow>
            fst (chat_completion L srv api_key chat_url messages model tmo options sent) = json r) \<and>
         (\<forall>j. json r = Inr j \<longrightarrow>
            (fst (chat_completion L srv api_key chat_url messages model tmo options sent) = Inr j
               \<longleftrightarrow> status_code r = 200)) \<and>
         ((\<exists>j. fst (chat_completion L srv api_key chat_url messages model tmo options sent) = Inr j)
            \<longrightarrow> status_code r = 200) \<and>
         (status_code r \<noteq> 200 \<longrightarrow>
            fst (chat_completion L srv api_key chat_url messages model tmo options sent)
              = Inl (Exception (response_text r))) \<and>
         (status_code mr \<noteq> 200 \<longrightarrow>
            fst (valid_models L srv api_key base_url gpt_only sent')
              = Inl (Exception (response_text mr)))"
proof -
  have c: "fst (chat_completion L srv api_key chat_url messages model tmo options sent) =
      (if status_code r \<noteq> 200 then Inl (Exception (response_text r)) else json r)"
    using assms(1) assms(2) by (rule chat_completion_result)
  have m: "fst (valid_models L srv api_key base_url gpt_only sent') =
      (if status_code mr = 200 then models_of_body (json mr) gpt_only
       else Inl (Exception (response_text mr)))"
    using assms(3) assms(4) by (rule valid_models_result)
  show ?thesis using c m by auto
qed

theorem status_decides_result_witness:
  "fst (chat_completion ascii_lib_3_11
          (\<lambda>req. Inr \<lparr>status_code = 400, response_text = ''bad request'', json = Inl JSONDecodeError\<rparr>)
          ''key'' ''api.example.com'' [] ''gpt-4'' 0 no_options [])
     = Inl (Exception ''bad request'') \<and>
   fst (valid_models ascii_lib_3_11
          (\<lambda>req. Inr \<lparr>status_code = 400, response_text = ''bad request'', json = Inl JSONDecodeError\<rparr>)
          ''key'' ''api.example.com'' True [])
     = Inl (Exception ''bad request'') \<and>
   fst (chat_completion ascii_lib_3_11
          (\<lambda>req. Inr \<lparr>status_code = 200, response_text = ''{\"id\":\"x\"}'',
                        json = Inr (JObj [(''id'', JStr ''x'')])\<rparr>)
          ''key'' ''api.example.com'' [] ''gpt-4'' 0 no_options [])
     = Inr (JObj [(''id'', JStr ''x'')])"
proof -
  have n: "normalize_url ascii_lib_3_11 ''api.example.com'' = Inr ''https://api.example.com''"
    by code_simp
  have m: "normalize_url ascii_lib_3_11 (os_path_join ''api.example.com'' ''v1/models'')
      = Inr ''https://api.example.com/v1/models''"
    by code_simp
  let ?bad = "\<lparr>status_code = 400, response_text = ''bad request'', json = Inl JSONDecodeError\<rparr>"
  let ?good = "\<lparr>status_code = 200, response_text = ''{\"id\":\"x\"}'',
                        json = Inr (JObj [(''id'', JStr ''x'')])\<rparr>"
  have b: "(status_code r = 200 \<longrightarrow>
            fst (chat_completion ascii_lib_3_11 (\<lambda>req. Inr r) ''key'' ''api.example.com'' [] ''gpt-4'' 0
                   no_options []) = json r) \<and>
         (\<forall>j. json r = Inr j \<longrightarrow>
            (fst (chat_completion ascii_lib_3_11 (\<lambda>req. Inr r) ''key'' ''api.example.com'' [] ''gpt-4'' 0
                   no_options []) = Inr j
               \<longleftrightarrow> status_code r = 200)) \<and>
         ((\<exists>j. fst (chat_completion ascii_lib_3_11 (\<lambda>req. Inr r) ''key'' ''api.example.com'' [] ''gpt-4'' 0
                   no_options []) = Inr j)
            \<longrightarrow> status_code r = 200) \<and>
         (status_code r \<noteq> 200 \<longrightarrow>
            fst (chat_completion ascii_lib_3_11 (\<lambda>req. Inr r) ''key'' ''api.example.com'' [] ''gpt-4'' 0
                   no_options [])
              = Inl (Exception (response_text r))) \<and>
         (status_code r \<noteq> 200 \<longrightarrow>
            fst (valid_models ascii_lib_3_11 (\<lambda>req. Inr r) ''key'' ''api.example.com'' True [])
              = Inl (Exception (response_text r)))" for r
    by (rule status_decides_result [OF n _ m]) simp_all
  show ?thesis
    using b [of ?bad] b [of ?good] by simp
qed

section \<open>valid_models\<close>

lemma model_ids_dicts:
  "model_ids (map JObj dicts)
     = Inr (map (\<lambda>d. case map_of d ''id'' of None \<Rightarrow> JNull | Some v \<Rightarrow> v) dicts)"
  by (induction dicts) simp_all

lemma gpt_models_strings:
  "gpt_models (map JStr ids) = Inr (map JStr (filter (str_contains ''gpt'') ids))"
  by (induction ids) simp_all

lemma py_in_error: "py_in sub v = Inl e \<Longrightarrow> e = TypeError"
  by (cases v) simp_all

lemma gpt_models_none: "JNull \<in> set vs \<Longrightarrow> gpt_models vs = Inl TypeError"
proof (induction vs)
  case Nil
  then show ?case by simp
next
  case (Cons v vs)
  show ?case
  proof (cases "py_in ''gpt'' v")
    case (Inl e)
    then show ?thesis using py_in_error [of "''gpt''" v e] by simp
  next
    case (Inr b)
    then have "v \<noteq> JNull" by auto
    then have "gpt_models vs = Inl TypeError" using Cons by simp
    then show ?thesis using Inr by simp
  qed
qed

lemma models_of_body_dicts:
  "map_of items ''data'' = Some (JArr (map JObj dicts)) \<Longrightarrow>
   models_of_body (Inr (JObj items)) gpt_only =
     (if gpt_only
      then gpt_models (map (\<lambda>d. case map_of d ''id'' of None \<Rightarrow> JNull | Some v \<Rightarrow> v) dicts)
      else Inr (map (\<lambda>d. case map_of d ''id'' of None \<Rightarrow> JNull | Some v \<Rightarrow> v) dicts))"
  by (simp add: models_of_body_def model_ids_dicts)

text \<open>
  Claim C5. On a response with status 200 whose body is an object with a list \<^verbatim>\<open>data\<close>
  of objects, each with a string \<^verbatim>\<open>id\<close>, \<^verbatim>\<open>valid_models\<close> returns the identifiers in
  the order of the list; with \<^verbatim>\<open>gpt_only\<close> it keeps exactly those that contain
  \<^verbatim>\<open>gpt\<close>, in the same order. For the data \<^verbatim>\<open>[{"id":"gpt-4"},{"id":"text-embed"}]\<close> that
  is \<^verbatim>\<open>["gpt-4"]\<close> with the filter and \<^verbatim>\<open>["gpt-4","text-embed"]\<close> without.
\<close>

theorem valid_models_ids:
  assumes "normalize_url L (os_path_join base_url ''v1/models'') = Inr mu"
    and "srv \<lparr>http_method = GET, http_request.url = mu, headers = models_headers api_key,
              data = None, timeout = None\<rparr> = Inr mr"
    and "status_code mr = 200"
    and "json mr = Inr (JObj items)"
    and "map_of items ''data'' = Some (JArr (map JObj dicts))"
    and "map (\<lambda>d. map_of d ''id'') dicts = map (\<lambda>i. Some (JStr i)) ids"
  shows "fst (valid_models L srv api_key base_url gpt_only sent)
     = Inr (map JStr (if gpt_only then filter (\<lambda>i. \<exists>p q. i = p @ ''gpt'' @ q) ids else ids))"
proof -
  have r: "fst (valid_models L srv api_key base_url gpt_only sent) =
      (if status_code mr = 200 then models_of_body (json mr) gpt_only
       else Inl (Exception (response_text mr)))"
    using assms(1) assms(2) by (rule valid_models_result)
  have "map (\<lambda>d. case map_of d ''id'' of None \<Rightarrow> JNull | Some v \<Rightarrow> v) dicts
      = map (\<lambda>x. case x of None \<Rightarrow> JNull | Some v \<Rightarrow> v) (map (\<lambda>d. map_of d ''id'') dicts)"
    by simp
  also have "\<dots> = map JStr ids"
    unfolding assms(6) by simp
  finally have l: "map (\<lambda>d. case map_of d ''id'' of None \<Rightarrow> JNull | Some v \<Rightarrow> v) dicts
      = map JStr ids" .
  have f: "filter (\<lambda>i. \<exists>p q. i = p @ ''gpt'' @ q) ids = filter (str_contains ''gpt'') ids"
    unfolding str_contains_iff ..
  have h: "fst (valid_models L srv api_key base_url gpt_only sent)
     = Inr (map JStr (if gpt_only then filter (str_contains ''gpt'') ids else ids))"
    using r assms(3) assms(4) models_of_body_dicts [OF assms(5), of gpt_only]
    by (simp add: l gpt_models_strings)
  show ?thesis unfolding f by (rule h)
qed

theorem valid_models_ids_witness:
  "fst (valid_models ascii_lib_3_11
     (\<lambda>req. Inr \<lparr>status_code = 200, response_text = [],
                  json = Inr (JObj [(''data'', JArr [JObj [(''id'', JStr ''gpt-4'')],
                                                     JObj [(''id'', JStr ''text-embed'')]])])\<rparr>)
     ''key'' ''api.example.com'' True []) = Inr [JStr ''gpt-4''] \<and>
   fst (valid_models ascii_lib_3_11
     (\<lambda>req. Inr \<lparr>status_code = 200, response_text = [],
                  json = Inr (JObj [(''data'', JArr [JObj [(''id'', JStr ''gpt-4'')],
                                                     JObj [(''id'', JStr ''text-embed'')]])])\<rparr>)
     ''key'' ''api.example.com'' False []) = Inr [JStr ''gpt-4'', JStr ''text-embed'']"
proof -
  let ?r = "\<lparr>status_code = 200, response_text = [],
                  json = Inr (JObj [(''data'', JArr [JObj [(''id'', JStr ''gpt-4'')],
                                                     JObj [(''id'', JStr ''text-embed'')]])])\<rparr>"
  have m: "normalize_url ascii_lib_3_11 (os_path_join ''api.example.com'' ''v1/models'')
      = Inr ''https://api.example.com/v1/models''"
    by code_simp
  have t: "fst (valid_models ascii_lib_3_11 (\<lambda>req. Inr ?r) ''key'' ''api.example.com'' g [])
     = Inr (map JStr (if g then filter (\<lambda>i. \<exists>p q. i = p @ ''gpt'' @ q) [''gpt-4'', ''text-embed'']
                      else [''gpt-4'', ''text-embed'']))" for g
    by (rule valid_models_ids [OF m, where mr = ?r and items = "[(''data'', JArr [JObj [(''id'', JStr ''gpt-4'')],
                                                     JObj [(''id'', JStr ''text-embed'')]])]"
          and dicts = "[[(''id'', JStr ''gpt-4'')], [(''id'', JStr ''text-embed'')]]"]) simp_all
  show ?thesis
    using t [of True] t [of False] unfolding str_contains_iff [symmetric] by simp
qed

text \<open>
  Claim C10. When an entry of \<^verbatim>\<open>data\<close> has no \<^verbatim>\<open>id\<close>, its identifier is \<^verbatim>\<open>None\<close>: with
  \<^verbatim>\<open>gpt_only\<close> the test \<^verbatim>\<open>"gpt" in None\<close> raises \<^verbatim>\<open>TypeError\<close> (not the
  \<^verbatim>\<open>Exception\<close> of a failed request), and without \<^verbatim>\<open>gpt_only\<close> the list returned
  holds \<^verbatim>\<open>None\<close> in the place of that identifier.
\<close>

theorem valid_models_missing_id:
  assumes "normalize_url L (os_path_join base_url ''v1/models'') = Inr mu"
    and "srv \<lparr>http_method = GET, http_request.url = mu, headers = models_headers api_key,
              data = None, timeout = None\<rparr> = Inr mr"
    and "status_code mr = 200"
    and "json mr = Inr (JObj items)"
    and "map_of items ''data'' = Some (JArr (map JObj dicts))"
    and "d \<in> set dicts"
    and "map_of d ''id'' = None"
  shows "fst (valid_models L srv api_key base_url True sent) = Inl TypeError \<and>
         fst (valid_models L srv api_key base_url False sent)
           = Inr (map (\<lambda>d. case map_of d ''id'' of None \<Rightarrow> JNull | Some v \<Rightarrow> v) dicts) \<and>
         JNull \<in> set (map (\<lambda>d. case map_of d ''id'' of None \<Rightarrow> JNull | Some v \<Rightarrow> v) dicts)"
proof -
  have r: "fst (valid_models L srv api_key base_url g sent) =
      (if status_code mr = 200 then models_of_body (json mr) g
       else Inl (Exception (response_text mr)))" for g
    using assms(1) assms(2) by (rule valid_models_result)
  have n: "JNull \<in> set (map (\<lambda>d. case map_of d ''id'' of None \<Rightarrow> JNull | Some v \<Rightarrow> v) dicts)"
    using assms(6) assms(7) by force
  show ?thesis
    using r [of True] r [of False] assms(3) assms(4) n
      models_of_body_dicts [OF assms(5), of True] models_of_body_dicts [OF assms(5), of False]
      gpt_models_none [OF n]
    by simp
qed

theorem valid_models_missing_id_witness:
  "fst (valid_models ascii_lib_3_11
     (\<lambda>req. Inr \<lparr>status_code = 200, response_text = [],
                  json = Inr (JObj [(''data'', JArr [JObj [(''id'', JStr ''gpt-4'')],
                                                     JObj [(''object'', JStr ''model'')]])])\<rparr>)
     ''key'' ''api.example.com'' True []) = Inl TypeError \<and>
   fst (valid_models ascii_lib_3_11
     (\<lambda>req. Inr \<lparr>status_code = 200, response_text = [],
                  json = Inr (JObj [(''data'', JArr [JObj [(''id'', JStr ''gpt-4'')],
                                                     JObj [(''object'', JStr ''model'')]])])\<rparr>)
     ''key'' ''api.example.com'' False []) = Inr [JStr ''gpt-4'', JNull]"
proof -
  let ?r = "\<lparr>status_code = 200, response_text = [],
                  json = Inr (JObj [(''data'', JArr [JObj [(''id'', JStr ''gpt-4'')],
                                                     JObj [(''object'', JStr ''model'')]])])\<rparr>"
  have m: "normalize_url ascii_lib_3_11 (os_path_join ''api.example.com'' ''v1/models'')
      = Inr ''https://api.example.com/v1/models''"
    by code_simp
  have "fst (valid_models ascii_lib_3_11 (\<lambda>req. Inr ?r) ''key'' ''api.example.com'' True []) = Inl TypeError \<and>
         fst (valid_models ascii_lib_3_11 (\<lambda>req. Inr ?r) ''key'' ''api.example.com'' False [])
           = Inr (map (\<lambda>d. case map_of d ''id'' of None \<Rightarrow> JNull | Some v \<Rightarrow> v)
                [[(''id'', JStr ''gpt-4'')], [(''object'', JStr ''model'')]]) \<and>
         JNull \<in> set (map (\<lambda>d. case map_of d ''id'' of None \<Rightarrow> JNull | Some v \<Rightarrow> v)
                [[(''id'', JStr ''gpt-4'')], [(''object'', JStr ''model'')]])"
    by (rule valid_models_missing_id [OF m, where mr = ?r and items = "[(''data'', JArr [JObj [(''id'', JStr ''gpt-4'')],
                                                     JObj [(''object'', JStr ''model'')]])]"
          and d = "[(''object'', JStr ''model'')]"]) simp_all
  then show ?thesis by simp
qed

end
